theory Spec2Isabelle
  imports Main "HOL-Library.AList"
begin

section \<open>Values of the parsed document\<close>

text \<open>
  \<open>migrate.js\<close> works on the value \<open>JSON.parse\<close> returns. Objects and arrays are
  heap cells: each carries the address of its cell, because \<open>seenObjects\<close> is a
  \<open>WeakSet\<close> and the two \<open>Set\<close>s compare objects by identity. An object keeps its
  own properties as an association list in the order \<open>Object.entries\<close> enumerates
  them. A number is carried by the decimal text \<open>String(n)\<close> prints for it, but
  negative zero by \<open>-0\<close>; the text is \<open>Infinity\<close> or \<open>-Infinity\<close> for the number
  \<open>JSON.parse\<close> gives for a literal beyond the range of a double, such as \<open>1e999\<close>.
  The program tests numbers for truthiness, compares them, prints them and copies them
  through JSON text.
\<close>

datatype json =
    JNull
  | JBool bool
  | JNum string
  | JStr string
  | JArr nat "json list"
  | JObj nat "(string \<times> json) list"

type_synonym document = "(string \<times> json) list"

fun labels :: "json \<Rightarrow> nat list" where
  "labels (JArr l xs) = l # concat (map labels xs)"
| "labels (JObj l kvs) = l # concat (map (\<lambda>kv. labels (snd kv)) kvs)"
| "labels v = []"

fun relabel :: "(nat \<Rightarrow> nat) \<Rightarrow> json \<Rightarrow> json" where
  "relabel f (JArr l xs) = JArr (f l) (map (relabel f) xs)"
| "relabel f (JObj l kvs) = JObj (f l) (map (\<lambda>kv. (fst kv, relabel f (snd kv))) kvs)"
| "relabel f v = v"

definition plain :: "json \<Rightarrow> json" where
  "plain v = relabel (\<lambda>l. 0) v"

definition plain_doc :: "document \<Rightarrow> document" where
  "plain_doc d = map (\<lambda>kv. (fst kv, plain (snd kv))) d"

definition doc_labels :: "document \<Rightarrow> nat list" where
  "doc_labels d = concat (map (\<lambda>kv. labels (snd kv)) d)"

subsection \<open>The operations of the language the program uses\<close>

fun truthy :: "json \<Rightarrow> bool" where
  "truthy JNull = False"
| "truthy (JBool b) = b"
| "truthy (JNum s) = (s \<notin> set [''0'', ''-0'', ''NaN''])"
| "truthy (JStr s) = (s \<noteq> [])"
| "truthy (JArr l xs) = True"
| "truthy (JObj l kvs) = True"

fun truthy_opt :: "json option \<Rightarrow> bool" where
  "truthy_opt None = False"
| "truthy_opt (Some v) = truthy v"

fun dec :: "nat \<Rightarrow> string" where
  "dec n = (if n < 10 then [char_of (48 + n)] else dec (n div 10) @ [char_of (48 + n mod 10)])"

declare dec.simps [simp del]

text \<open>\<open>Object.entries\<close> on a value other than \<open>null\<close>: the own enumerable properties.\<close>

fun entries :: "json \<Rightarrow> (string \<times> json) list" where
  "entries (JObj l kvs) = kvs"
| "entries (JArr l xs) = zip (map dec [0..<length xs]) xs"
| "entries (JStr s) = zip (map dec [0..<length s]) (map (\<lambda>c. JStr [c]) s)"
| "entries v = []"

definition vals :: "json \<Rightarrow> json list" where
  "vals v = map snd (entries v)"

text \<open>
  A property read \<open>v.k\<close> on a value other than \<open>null\<close>; \<open>None\<close> is \<open>undefined\<close>.
  Inherited properties are left out: under the names the program reads, the prototypes
  hold functions (or \<open>Object.prototype\<close>, which has nothing to enumerate), and the
  program passes what it reads under a computed name to \<open>collectReferences\<close> only,
  which returns at once on a function.
\<close>

definition get :: "json \<Rightarrow> string \<Rightarrow> json option" where
  "get v k = map_of (entries v) k"

fun is_array :: "json \<Rightarrow> bool" where
  "is_array (JArr l xs) = True"
| "is_array v = False"

fun join :: "string list \<Rightarrow> string" where
  "join [] = []"
| "join [s] = s"
| "join (s # t # ss) = s @ '','' @ join (t # ss)"

fun all_some :: "'a option list \<Rightarrow> 'a list option" where
  "all_some [] = Some []"
| "all_some (None # xs) = None"
| "all_some (Some x # xs) = map_option ((#) x) (all_some xs)"

text \<open>
  \<open>String(v)\<close>, as a template literal, a property key and the \<open>URL\<close> constructor
  apply it. \<open>None\<close> is the TypeError of an object whose own \<open>toString\<close> property (never
  callable in parsed JSON) hides the inherited one.
\<close>

fun to_str :: "json \<Rightarrow> string option" where
  "to_str JNull = Some ''null''"
| "to_str (JBool b) = Some (if b then ''true'' else ''false'')"
| "to_str (JNum s) = Some (if s = ''-0'' then ''0'' else s)"
| "to_str (JStr s) = Some s"
| "to_str (JObj l kvs) = (if ''toString'' \<in> set (map fst kvs) then None else Some ''[object Object]'')"
| "to_str (JArr l xs) =
     map_option join (all_some (map (\<lambda>x. if x = JNull then Some [] else to_str x) xs))"

fun to_str_opt :: "json option \<Rightarrow> string option" where
  "to_str_opt None = Some ''undefined''"
| "to_str_opt (Some v) = to_str v"

text \<open>
  What a \<open>Set\<close> compares (SameValueZero): a cell by its address, anything else by value,
  the two zeros being the same value.
\<close>

datatype ident = Undefined | Prim json | Ref nat

fun ident_of :: "json \<Rightarrow> ident" where
  "ident_of (JArr l xs) = Ref l"
| "ident_of (JObj l kvs) = Ref l"
| "ident_of (JNum s) = Prim (JNum (if s = ''-0'' then ''0'' else s))"
| "ident_of v = Prim v"

fun ident_opt :: "json option \<Rightarrow> ident" where
  "ident_opt None = Undefined"
| "ident_opt (Some v) = ident_of v"

definition has :: "json option list \<Rightarrow> json option \<Rightarrow> bool" where
  "has s v = (ident_opt v \<in> set (map ident_opt s))"

definition add :: "json option \<Rightarrow> json option list \<Rightarrow> json option list" where
  "add v s = (if has s v then s else s @ [v])"

text \<open>\<open>o[k] = v\<close> on a plain object: under the key \<open>__proto__\<close> no own property appears.\<close>

definition assign :: "string \<Rightarrow> json \<Rightarrow> (string \<times> json) list \<Rightarrow> (string \<times> json) list" where
  "assign k v kvs = (if k = ''__proto__'' then kvs else AList.update k v kvs)"

definition fromEntries :: "(string \<times> json) list \<Rightarrow> (string \<times> json) list" where
  "fromEntries kvs = foldl (\<lambda>acc kv. AList.update (fst kv) (snd kv) acc) [] kvs"

fun split_on :: "char \<Rightarrow> string \<Rightarrow> string list" where
  "split_on c [] = [[]]"
| "split_on c (x # xs) =
     (if x = c then [] # split_on c xs
      else (case split_on c xs of [] \<Rightarrow> [[x]] | s # ss \<Rightarrow> (x # s) # ss))"

definition nth_opt :: "'a list \<Rightarrow> nat \<Rightarrow> 'a option" where
  "nth_opt xs i = (if i < length xs then Some (xs ! i) else None)"

subsection \<open>What the platform supplies\<close>

text \<open>
  \<open>URL\<close> and \<open>RegExp\<close> belong to the runtime, not to this repository, and are
  parameters: \<open>url_parse h s\<close> is the pair (pathname, hash) of
  \<open>new URL(s, 'file:///')\<close>, or \<open>None\<close> when the constructor throws; \<open>regexp h p\<close>
  is the \<open>test\<close> method of \<open>new RegExp(p)\<close>, or \<open>None\<close> when the pattern is
  rejected. One case of the URL standard is fixed here because the program's use of
  references rests on it: a reference that is only a fragment resolves against
  \<open>file:///\<close> to the base's path \<open>/\<close>, and its hash is the reference itself when
  every character after \<open>#\<close> is printable ASCII outside the fragment percent-encode set.
\<close>

record host =
  url_parse :: "string \<Rightarrow> (string \<times> string) option"
  regexp :: "string \<Rightarrow> (string \<Rightarrow> bool) option"

definition frag_plain :: "char \<Rightarrow> bool" where
  "frag_plain c = (let n = (of_char c :: nat) in 33 \<le> n \<and> n \<le> 126 \<and> n \<notin> {34, 60, 62, 96})"

definition new_URL :: "host \<Rightarrow> string \<Rightarrow> (string \<times> string) option" where
  "new_URL h r =
     (case r of
        [] \<Rightarrow> url_parse h r
      | c # cs \<Rightarrow>
          if c = CHR ''#'' \<and> list_all frag_plain cs
          then Some (''/'', if cs = [] then [] else r)
          else url_parse h r)"

section \<open>The state of one pass\<close>

record state =
  seenObjects :: "nat list"
  usedComponents :: "string \<Rightarrow> json option list"
  usedTags :: "json option list"
  warnings :: "string list"
  fresh :: nat

datatype 'a outcome = Done 'a | Threw 'a | OutOfFuel

definition andthen :: "'a outcome \<Rightarrow> ('a \<Rightarrow> 'a outcome) \<Rightarrow> 'a outcome" where
  "andthen m f = (case m of Done s \<Rightarrow> f s | Threw s \<Rightarrow> Threw s | OutOfFuel \<Rightarrow> OutOfFuel)"

fun each :: "('x \<Rightarrow> 'a \<Rightarrow> 'a outcome) \<Rightarrow> 'x list \<Rightarrow> 'a \<Rightarrow> 'a outcome" where
  "each f [] s = Done s"
| "each f (x # xs) s = andthen (f x s) (each f xs)"

fun steps :: "('a \<Rightarrow> 'a outcome) list \<Rightarrow> 'a \<Rightarrow> 'a outcome" where
  "steps [] s = Done s"
| "steps (f # fs) s = andthen (f s) (steps fs)"

definition COMPONENT_TYPES :: "string list" where
  "COMPONENT_TYPES = [''schemas'', ''responses'', ''parameters'', ''examples'',
      ''requestBodies'', ''headers'', ''securitySchemes'']"

definition use :: "string \<Rightarrow> json option \<Rightarrow> state \<Rightarrow> state" where
  "use ty name st = st\<lparr>usedComponents := (usedComponents st)(ty := add name (usedComponents st ty))\<rparr>"

definition warn :: "string \<Rightarrow> state \<Rightarrow> state" where
  "warn r st = st\<lparr>warnings := warnings st @ [''Invalid $ref: '' @ r]\<rparr>"

section \<open>The reference resolver\<close>

text \<open>\<open>spec.components?.[type]?.[name]\<close>; the outer \<open>None\<close> is the TypeError of the key.\<close>

definition component :: "json option \<Rightarrow> string \<Rightarrow> json option \<Rightarrow> json option option" where
  "component comps ty name =
     (case comps of
        None \<Rightarrow> Some None
      | Some c \<Rightarrow>
          if c = JNull then Some None
          else (case get c ty of
                  None \<Rightarrow> Some None
                | Some t \<Rightarrow>
                    if t = JNull then Some None
                    else (case to_str_opt name of None \<Rightarrow> None | Some k \<Rightarrow> Some (get t k))))"

text \<open>\<open>if (v) collectReferences(v)\<close>, the recursive call being \<open>rec\<close>.\<close>

fun visit :: "(json \<Rightarrow> state \<Rightarrow> state outcome) \<Rightarrow> json option \<Rightarrow> state \<Rightarrow> state outcome" where
  "visit rec None st = Done st"
| "visit rec (Some v) st = (if truthy v then rec v st else Done st)"

definition trackComponent ::
  "json option \<Rightarrow> (json \<Rightarrow> state \<Rightarrow> state outcome) \<Rightarrow> string \<Rightarrow> json option \<Rightarrow> state \<Rightarrow> state outcome" where
  "trackComponent comps rec ty name st =
     (if has (usedComponents st ty) name then Done st
      else (case component comps ty name of
              None \<Rightarrow> Threw (use ty name st)
            | Some c \<Rightarrow> visit rec c (use ty name st)))"

text \<open>The \<open>try\<close> around the reference: whatever is thrown inside becomes a warning.\<close>

definition caught :: "string \<Rightarrow> state outcome \<Rightarrow> state outcome" where
  "caught r m = (case m of Threw st \<Rightarrow> Done (warn r st) | Done st \<Rightarrow> Done st | OutOfFuel \<Rightarrow> OutOfFuel)"

definition handle_ref ::
  "host \<Rightarrow> json option \<Rightarrow> (json \<Rightarrow> state \<Rightarrow> state outcome) \<Rightarrow> json \<Rightarrow> state \<Rightarrow> state outcome" where
  "handle_ref h comps rec obj st =
     (case get obj ''$ref'' of
        None \<Rightarrow> Done st
      | Some r \<Rightarrow>
          if truthy r then
            (case to_str r of
               None \<Rightarrow> Threw st
             | Some s \<Rightarrow>
                 (case new_URL h s of
                    None \<Rightarrow> Done (warn s st)
                  | Some u \<Rightarrow>
                      if fst u = ''/components'' then
                        (case nth_opt (split_on CHR ''/'' (snd u)) 2 of
                           None \<Rightarrow> Done st
                         | Some ty \<Rightarrow>
                             if ty \<in> set COMPONENT_TYPES
                             then caught s (trackComponent comps rec ty
                                    (map_option JStr (nth_opt (split_on CHR ''/'' (snd u)) 3)) st)
                             else Done st)
                      else Done st))
          else Done st)"

definition handle_composition :: "(json \<Rightarrow> state \<Rightarrow> state outcome) \<Rightarrow> json \<Rightarrow> state \<Rightarrow> state outcome" where
  "handle_composition rec obj =
     each (\<lambda>prop st. case get obj prop of Some (JArr l xs) \<Rightarrow> each rec xs st | _ \<Rightarrow> Done st)
       [''allOf'', ''anyOf'', ''oneOf'']"

definition handle_properties :: "(json \<Rightarrow> state \<Rightarrow> state outcome) \<Rightarrow> json \<Rightarrow> state \<Rightarrow> state outcome" where
  "handle_properties rec obj st =
     (case get obj ''properties'' of
        None \<Rightarrow> Done st
      | Some p \<Rightarrow> if truthy p then each rec (vals p) st else Done st)"

definition handle_parameter :: "(json \<Rightarrow> state \<Rightarrow> state outcome) \<Rightarrow> json \<Rightarrow> state \<Rightarrow> state outcome" where
  "handle_parameter rec param st =
     (if param = JNull then Threw st
      else steps [(\<lambda>st. if truthy_opt (get param ''$ref'') then rec param st else Done st),
                  visit rec (get param ''schema'')] st)"

definition handle_parameters :: "(json \<Rightarrow> state \<Rightarrow> state outcome) \<Rightarrow> json \<Rightarrow> state \<Rightarrow> state outcome" where
  "handle_parameters rec obj st =
     (case get obj ''parameters'' of
        None \<Rightarrow> Done st
      | Some p \<Rightarrow>
          if truthy p then (case p of JArr l ps \<Rightarrow> each (handle_parameter rec) ps st | _ \<Rightarrow> Threw st)
          else Done st)"

definition handle_content :: "(json \<Rightarrow> state \<Rightarrow> state outcome) \<Rightarrow> json \<Rightarrow> state \<Rightarrow> state outcome" where
  "handle_content rec obj st =
     (case get obj ''content'' of
        None \<Rightarrow> Done st
      | Some c \<Rightarrow>
          if truthy c
          then each (\<lambda>m st. if m = JNull then Threw st else visit rec (get m ''schema'') st) (vals c) st
          else Done st)"

definition scheme_names :: "json list \<Rightarrow> string list" where
  "scheme_names reqs = concat (map (\<lambda>r. if truthy r then map fst (entries r) else []) reqs)"

definition handle_security :: "json \<Rightarrow> state \<Rightarrow> state outcome" where
  "handle_security obj st =
     (case get obj ''security'' of
        None \<Rightarrow> Done st
      | Some s \<Rightarrow>
          if truthy s then
            (case s of
               JArr l reqs \<Rightarrow>
                 Done (foldl (\<lambda>st k. use ''securitySchemes'' (Some (JStr k)) st) st (scheme_names reqs))
             | _ \<Rightarrow> Threw st)
          else Done st)"

definition handle_dto ::
  "json option \<Rightarrow> (json \<Rightarrow> state \<Rightarrow> state outcome) \<Rightarrow> json \<Rightarrow> state \<Rightarrow> state outcome" where
  "handle_dto comps rec obj st =
     (case get obj ''x-responseDTO'' of
        None \<Rightarrow> Done st
      | Some d \<Rightarrow> if truthy d then trackComponent comps rec ''schemas'' (Some d) st else Done st)"

definition handle_rest :: "(json \<Rightarrow> state \<Rightarrow> state outcome) \<Rightarrow> json \<Rightarrow> state \<Rightarrow> state outcome" where
  "handle_rest rec obj =
     each (\<lambda>v st. case v of
                    JArr l xs \<Rightarrow> each rec xs st
                  | JObj l kvs \<Rightarrow> rec v st
                  | JNull \<Rightarrow> rec v st
                  | _ \<Rightarrow> Done st)
       (vals obj)"

text \<open>The body of \<open>collectReferences\<close> below its guard, in the order of the source.\<close>

definition scan ::
  "host \<Rightarrow> json option \<Rightarrow> (json \<Rightarrow> state \<Rightarrow> state outcome) \<Rightarrow> json \<Rightarrow> state \<Rightarrow> state outcome" where
  "scan h comps rec obj =
     steps [handle_ref h comps rec obj,
            handle_composition rec obj,
            handle_properties rec obj,
            visit rec (get obj ''items''),
            visit rec (get obj ''additionalProperties''),
            handle_parameters rec obj,
            handle_content rec obj,
            handle_security obj,
            handle_dto comps rec obj,
            handle_rest rec obj]"

fun address :: "json \<Rightarrow> nat option" where
  "address (JArr l xs) = Some l"
| "address (JObj l kvs) = Some l"
| "address v = None"

text \<open>The guard: \<open>obj\<close> is an object (or array) that \<open>seenObjects\<close> does not hold yet.\<close>

definition unvisited :: "json \<Rightarrow> state \<Rightarrow> bool" where
  "unvisited obj st = (case address obj of None \<Rightarrow> False | Some l \<Rightarrow> l \<notin> set (seenObjects st))"

definition mark :: "json \<Rightarrow> state \<Rightarrow> state" where
  "mark obj st = (case address obj of None \<Rightarrow> st | Some l \<Rightarrow> st\<lparr>seenObjects := seenObjects st @ [l]\<rparr>)"

text \<open>
  \<open>collectReferences\<close>, with the depth of the recursion bounded by the fuel: a call
  that the guard turns away costs nothing, a call that scans needs one unit for itself
  and hands the rest to the calls it makes.
\<close>

primrec collectReferences :: "host \<Rightarrow> json option \<Rightarrow> nat \<Rightarrow> json \<Rightarrow> state \<Rightarrow> state outcome" where
  "collectReferences h comps 0 = (\<lambda>obj st. if unvisited obj st then OutOfFuel else Done st)"
| "collectReferences h comps (Suc n) =
     (\<lambda>obj st. if unvisited obj st
                then scan h comps (collectReferences h comps n) obj (mark obj st)
                else Done st)"

section \<open>The operation selector\<close>

record config =
  tags :: "string list"
  pathPattern :: "string option"
  excludeInternalComponents :: bool
  alwaysIncludeComponents :: "string list"

definition METHODS :: "string list" where
  "METHODS = [''get'', ''post'', ''put'', ''delete'', ''patch'', ''head'', ''options'', ''trace'']"

text \<open>
  What the loop over \<open>spec.paths\<close> carries: the resolver's state, \<open>filteredSpec.paths\<close>,
  the entries of \<open>spec.paths\<close> as the pass leaves them (the source's operations are
  assigned to in place), and for the path item at hand \<open>filteredPathItem\<close>,
  \<open>hasOperations\<close> and its members as the pass leaves them.
\<close>

record walk =
  pass :: state
  paths_out :: "(string \<times> json) list"
  paths_src :: "(string \<times> json) list"
  filteredPathItem :: "(string \<times> json) list"
  hasOperations :: bool
  members :: "(string \<times> json) list"

definition in_pass :: "(state \<Rightarrow> state outcome) \<Rightarrow> walk \<Rightarrow> walk outcome" where
  "in_pass f w =
     (case f (pass w) of
        Done s \<Rightarrow> Done (w\<lparr>pass := s\<rparr>)
      | Threw s \<Rightarrow> Threw (w\<lparr>pass := s\<rparr>)
      | OutOfFuel \<Rightarrow> OutOfFuel)"

definition alloc :: "state \<Rightarrow> state" where
  "alloc st = st\<lparr>fresh := Suc (fresh st)\<rparr>"

text \<open>\<open>operation.tags || []\<close> as the array the two loops need; \<open>None\<close> is their TypeError.\<close>

definition operationTags :: "json \<Rightarrow> json list option" where
  "operationTags operation =
     (case get operation ''tags'' of
        None \<Rightarrow> Some []
      | Some t \<Rightarrow> if truthy t then (case t of JArr l ts \<Rightarrow> Some ts | _ \<Rightarrow> None) else Some [])"

definition shouldInclude :: "config \<Rightarrow> json list \<Rightarrow> bool" where
  "shouldInclude cfg ts =
     (tags cfg = [] \<or> list_ex (\<lambda>t. case t of JStr s \<Rightarrow> s \<in> set (tags cfg) | _ \<Rightarrow> False) ts)"

text \<open>The key \<open>`${param.in}.${param.name}`\<close>; \<open>None\<close> is a TypeError.\<close>

definition param_key :: "json \<Rightarrow> string option" where
  "param_key param =
     (if param = JNull then None
      else (case to_str_opt (get param ''in'') of
              None \<Rightarrow> None
            | Some a \<Rightarrow>
                (case to_str_opt (get param ''name'') of
                   None \<Rightarrow> None
                 | Some b \<Rightarrow> Some (a @ ''.'' @ b))))"

fun uniqueParams :: "string list \<Rightarrow> json list \<Rightarrow> json list option" where
  "uniqueParams seenParams [] = Some []"
| "uniqueParams seenParams (param # ps) =
     (case param_key param of
        None \<Rightarrow> None
      | Some k \<Rightarrow>
          if k \<in> set seenParams then uniqueParams seenParams ps
          else map_option ((#) param) (uniqueParams (seenParams @ [k]) ps))"

fun put :: "string \<Rightarrow> json \<Rightarrow> json \<Rightarrow> json" where
  "put k v (JObj l kvs) = JObj l (assign k v kvs)"
| "put k v other = other"

text \<open>
  The deduplication of one kept operation: the operation as the assignment
  \<open>operation.parameters = uniqueParams\<close> leaves it, the new array in the cell \<open>a\<close>.
\<close>

definition deduplicate :: "nat \<Rightarrow> json \<Rightarrow> json option" where
  "deduplicate a operation =
     (case get operation ''parameters'' of
        None \<Rightarrow> Some operation
      | Some p \<Rightarrow>
          if truthy p then
            (case p of
               JArr l ps \<Rightarrow> map_option (\<lambda>u. put ''parameters'' (JArr a u) operation) (uniqueParams [] ps)
             | _ \<Rightarrow> None)
          else Some operation)"

definition keep :: "string \<Rightarrow> json \<Rightarrow> walk \<Rightarrow> walk" where
  "keep method operation w = w\<lparr>members := members w @ [(method, operation)]\<rparr>"

definition process_operation ::
  "host \<Rightarrow> json option \<Rightarrow> config \<Rightarrow> nat \<Rightarrow> string \<times> json \<Rightarrow> walk \<Rightarrow> walk outcome" where
  "process_operation h comps cfg fuel e w =
     (let method = fst e; operation = snd e in
      if method \<notin> set METHODS
      then Done (keep method operation (w\<lparr>filteredPathItem := assign method operation (filteredPathItem w)\<rparr>))
      else if operation = JNull then Threw w
      else (case operationTags operation of
              None \<Rightarrow> Threw w
            | Some ts \<Rightarrow>
                if shouldInclude cfg ts then
                  (case deduplicate (fresh (pass w)) operation of
                     None \<Rightarrow> Threw w
                   | Some operation' \<Rightarrow>
                       in_pass (collectReferences h comps fuel operation')
                         (keep method operation'
                            (w\<lparr>pass := alloc ((pass w)\<lparr>usedTags := foldl (\<lambda>s t. add (Some t) s) (usedTags (pass w)) ts\<rparr>),
                               filteredPathItem := assign method operation' (filteredPathItem w),
                               hasOperations := True\<rparr>)))
                else Done (keep method operation w)))"

text \<open>The path item with the members the pass left: the cell is the one it was.\<close>

fun with_entries :: "json \<Rightarrow> (string \<times> json) list \<Rightarrow> json" where
  "with_entries (JObj l kvs) es = JObj l es"
| "with_entries (JArr l xs) es = JArr l (map snd es)"
| "with_entries v es = v"

definition path_parameters :: "host \<Rightarrow> json option \<Rightarrow> nat \<Rightarrow> json \<Rightarrow> state \<Rightarrow> state outcome" where
  "path_parameters h comps fuel pathItem st =
     (case get pathItem ''parameters'' of
        None \<Rightarrow> Done st
      | Some p \<Rightarrow>
          if truthy p
          then collectReferences h comps fuel (JObj (fresh st) [(''parameters'', p)]) (alloc st)
          else Done st)"

definition finish_path :: "host \<Rightarrow> json option \<Rightarrow> nat \<Rightarrow> nat \<Rightarrow> string \<Rightarrow> json \<Rightarrow> walk \<Rightarrow> walk outcome" where
  "finish_path h comps fuel a path pathItem w =
     (let item = with_entries pathItem (members w);
          w' = w\<lparr>paths_src := paths_src w @ [(path, item)]\<rparr>
      in if hasOperations w
         then in_pass (collectReferences h comps fuel item)
                (w'\<lparr>paths_out := assign path (JObj a (filteredPathItem w)) (paths_out w)\<rparr>)
         else Done w')"

definition process_path ::
  "host \<Rightarrow> json option \<Rightarrow> config \<Rightarrow> (string \<Rightarrow> bool) option \<Rightarrow> nat \<Rightarrow> string \<times> json \<Rightarrow> walk \<Rightarrow> walk outcome" where
  "process_path h comps cfg pathRegex fuel e w =
     (let path = fst e; pathItem = snd e in
      if (case pathRegex of None \<Rightarrow> False | Some test \<Rightarrow> \<not> test path)
      then Done (w\<lparr>paths_src := paths_src w @ [(path, pathItem)]\<rparr>)
      else if pathItem = JNull then Threw w
      else steps [in_pass (path_parameters h comps fuel pathItem),
                  each (process_operation h comps cfg fuel) (entries pathItem),
                  finish_path h comps fuel (fresh (pass w)) path pathItem]
             (w\<lparr>pass := alloc (pass w), filteredPathItem := [], hasOperations := False, members := []\<rparr>))"

section \<open>Seeding and the closure\<close>

definition initial :: "config \<Rightarrow> nat \<Rightarrow> state" where
  "initial cfg a =
     \<lparr>seenObjects = [],
      usedComponents = (\<lambda>ty. if ty \<in> set COMPONENT_TYPES
                             then foldl (\<lambda>s n. add (Some (JStr n)) s) [] (alwaysIncludeComponents cfg)
                             else []),
      usedTags = [],
      warnings = [],
      fresh = a\<rparr>"

text \<open>\<open>if (filteredSpec.security) collectReferences({ security: filteredSpec.security })\<close>.\<close>

definition root_security :: "host \<Rightarrow> json option \<Rightarrow> nat \<Rightarrow> json option \<Rightarrow> state \<Rightarrow> state outcome" where
  "root_security h comps fuel security st =
     (case security of
        None \<Rightarrow> Done st
      | Some s \<Rightarrow>
          if truthy s
          then collectReferences h comps fuel (JObj (fresh st) [(''security'', s)]) (alloc st)
          else Done st)"

definition ERROR_NAMES :: "string list" where
  "ERROR_NAMES = [''Error'', ''Failure'', ''ValidationError'', ''AccessDeniedError'', ''AuthzError'']"

definition force_error :: "host \<Rightarrow> json option \<Rightarrow> nat \<Rightarrow> string \<Rightarrow> state \<Rightarrow> state outcome" where
  "force_error h comps fuel name st =
     (case component comps ''schemas'' (Some (JStr name)) of
        Some (Some c) \<Rightarrow>
          if truthy c then collectReferences h comps fuel c (use ''schemas'' (Some (JStr name)) st)
          else Done st
      | _ \<Rightarrow> Done st)"

text \<open>
  One round of the \<open>do ... while\<close>: the flag \<open>hasChanges\<close> travels with the state. The
  names of a type are those it holds when its turn comes (\<open>Array.from\<close>).
\<close>

definition flagged :: "bool \<Rightarrow> string \<Rightarrow> nat \<Rightarrow> state outcome \<Rightarrow> (bool \<times> state) outcome" where
  "flagged hasChanges ty before m =
     (case m of
        Done s \<Rightarrow> Done (hasChanges \<or> before < length (usedComponents s ty), s)
      | Threw s \<Rightarrow> Threw (hasChanges, s)
      | OutOfFuel \<Rightarrow> OutOfFuel)"

definition resolve_name ::
  "host \<Rightarrow> json option \<Rightarrow> nat \<Rightarrow> string \<Rightarrow> json option \<Rightarrow> bool \<times> state \<Rightarrow> (bool \<times> state) outcome" where
  "resolve_name h comps fuel ty name cs =
     (case component comps ty name of
        None \<Rightarrow> Threw cs
      | Some c \<Rightarrow>
          if truthy_opt c
          then flagged (fst cs) ty (length (usedComponents (snd cs) ty))
                 (visit (collectReferences h comps fuel) c (snd cs))
          else Done cs)"

definition resolve_type ::
  "host \<Rightarrow> json option \<Rightarrow> nat \<Rightarrow> string \<Rightarrow> bool \<times> state \<Rightarrow> (bool \<times> state) outcome" where
  "resolve_type h comps fuel ty cs =
     each (resolve_name h comps fuel ty) (usedComponents (snd cs) ty) cs"

definition resolve_round :: "host \<Rightarrow> json option \<Rightarrow> nat \<Rightarrow> state \<Rightarrow> (bool \<times> state) outcome" where
  "resolve_round h comps fuel st = each (resolve_type h comps fuel) COMPONENT_TYPES (False, st)"

text \<open>The \<open>do ... while (hasChanges)\<close>; \<open>rounds\<close> bounds the number of rounds.\<close>

primrec resolve :: "host \<Rightarrow> json option \<Rightarrow> nat \<Rightarrow> nat \<Rightarrow> state \<Rightarrow> state outcome" where
  "resolve h comps fuel 0 = (\<lambda>st. OutOfFuel)"
| "resolve h comps fuel (Suc rounds) =
     (\<lambda>st. case resolve_round h comps fuel st of
             Done cs \<Rightarrow> if fst cs then resolve h comps fuel rounds (snd cs) else Done (snd cs)
           | Threw cs \<Rightarrow> Threw (snd cs)
           | OutOfFuel \<Rightarrow> OutOfFuel)"

section \<open>The assembler\<close>

text \<open>The filter of one category; \<open>None\<close> is the TypeError of reading \<open>x-internal\<close> off
  \<open>null\<close> or \<open>undefined\<close>.\<close>

definition retained :: "config \<Rightarrow> json option list \<Rightarrow> json \<Rightarrow> string \<times> json \<Rightarrow> bool option" where
  "retained cfg names category e =
     (if has names (Some (JStr (fst e))) then
        (if excludeInternalComponents cfg then
           (case get category (fst e) of
              None \<Rightarrow> None
            | Some c \<Rightarrow> if c = JNull then None else Some (\<not> truthy_opt (get c ''x-internal'')))
         else Some True)
      else Some False)"

fun filter_opt :: "('a \<Rightarrow> bool option) \<Rightarrow> 'a list \<Rightarrow> 'a list option" where
  "filter_opt p [] = Some []"
| "filter_opt p (x # xs) =
     (case p x of
        None \<Rightarrow> None
      | Some b \<Rightarrow> map_option (\<lambda>r. if b then x # r else r) (filter_opt p xs))"

text \<open>
  The loop over the seven types, building \<open>filteredSpec.components\<close>; a category left
  empty is deleted again. The cell of a category's new object is \<open>a\<close> plus its position.
\<close>

fun categories ::
  "config \<Rightarrow> (string \<Rightarrow> json option list) \<Rightarrow> json \<Rightarrow> nat \<Rightarrow> string list \<Rightarrow> (string \<times> json) list option" where
  "categories cfg used comps a [] = Some []"
| "categories cfg used comps a (ty # tys) =
     (case get comps ty of
        None \<Rightarrow> categories cfg used comps (Suc a) tys
      | Some category \<Rightarrow>
          if truthy category then
            (case filter_opt (retained cfg (used ty) category) (entries category) of
               None \<Rightarrow> None
             | Some es \<Rightarrow>
                 map_option (\<lambda>r. if fromEntries es = [] then r else (ty, JObj a (fromEntries es)) # r)
                   (categories cfg used comps (Suc a) tys))
          else categories cfg used comps (Suc a) tys)"

definition filter_components :: "config \<Rightarrow> state \<Rightarrow> document \<Rightarrow> document \<Rightarrow> document option" where
  "filter_components cfg st spec filteredSpec =
     (case map_of spec ''components'' of
        None \<Rightarrow> Some filteredSpec
      | Some comps \<Rightarrow>
          if truthy comps then
            map_option (\<lambda>cs. assign ''components'' (JObj (fresh st) cs) filteredSpec)
              (categories cfg (usedComponents st) comps (Suc (fresh st)) COMPONENT_TYPES)
          else Some filteredSpec)"

definition preserve_schemes :: "document \<Rightarrow> document \<Rightarrow> document" where
  "preserve_schemes spec filteredSpec =
     (case map_of spec ''securitySchemes'' of
        None \<Rightarrow> filteredSpec
      | Some s \<Rightarrow> if truthy s then assign ''securitySchemes'' s filteredSpec else filteredSpec)"

definition tag_retained :: "config \<Rightarrow> state \<Rightarrow> json \<Rightarrow> bool option" where
  "tag_retained cfg st tag =
     (if tag = JNull then None
      else (case get tag ''name'' of
              None \<Rightarrow> Some False
            | Some n \<Rightarrow>
                Some (has (usedTags st) (Some n) \<and>
                      (if excludeInternalComponents cfg then \<not> truthy_opt (get tag ''x-internal'') else True))))"

definition filter_tags :: "config \<Rightarrow> state \<Rightarrow> document \<Rightarrow> document \<Rightarrow> document option" where
  "filter_tags cfg st spec filteredSpec =
     (case (case map_of spec ''tags'' of
              None \<Rightarrow> Some []
            | Some t \<Rightarrow> if truthy t then (case t of JArr l ts \<Rightarrow> filter_opt (tag_retained cfg st) ts | _ \<Rightarrow> None)
                        else Some []) of
        None \<Rightarrow> None
      | Some ts \<Rightarrow> Some (assign ''tags'' (JArr (fresh st + 8) ts) filteredSpec))"

definition clean_field :: "string \<Rightarrow> document \<Rightarrow> document" where
  "clean_field field filteredSpec =
     (case map_of filteredSpec field of
        None \<Rightarrow> filteredSpec
      | Some v \<Rightarrow> if truthy v \<and> entries v = [] then AList.delete field filteredSpec else filteredSpec)"

definition clean_empty :: "document \<Rightarrow> document" where
  "clean_empty filteredSpec = foldl (\<lambda>d field. clean_field field d) filteredSpec [''components'', ''security'', ''tags'']"

definition assemble :: "config \<Rightarrow> state \<Rightarrow> document \<Rightarrow> document \<Rightarrow> document option" where
  "assemble cfg st spec filteredSpec =
     (case filter_components cfg st spec filteredSpec of
        None \<Rightarrow> None
      | Some d \<Rightarrow> map_option clean_empty (filter_tags cfg st spec (preserve_schemes spec d)))"

section \<open>The pass\<close>

record result =
  returned :: document
  input_after :: document
  final :: state

datatype finished = Returned result | Raised | Exhausted

text \<open>\<open>pathPattern ? new RegExp(pathPattern) : null\<close>; the outer \<open>None\<close> is the SyntaxError.\<close>

definition pathRegex :: "host \<Rightarrow> config \<Rightarrow> (string \<Rightarrow> bool) option option" where
  "pathRegex h cfg =
     (case pathPattern cfg of
        None \<Rightarrow> Some None
      | Some p \<Rightarrow> if p = [] then Some None else map_option Some (regexp h p))"

text \<open>The first address above every cell of the document.\<close>

definition above :: "document \<Rightarrow> nat" where
  "above spec = Suc (fold max (doc_labels spec) 0)"

text \<open>
  What \<open>JSON.parse\<close> reads back from the text \<open>JSON.stringify\<close> writes for a value:
  the text has \<open>null\<close> for a number that is not finite and \<open>0\<close> for negative zero.
\<close>

fun reparsed :: "json \<Rightarrow> json" where
  "reparsed (JNum s) =
     (if s \<in> set [''Infinity'', ''-Infinity'', ''NaN''] then JNull
      else if s = ''-0'' then JNum ''0'' else JNum s)"
| "reparsed (JArr l xs) = JArr l (map reparsed xs)"
| "reparsed (JObj l kvs) = JObj l (map (\<lambda>kv. (fst kv, reparsed (snd kv))) kvs)"
| "reparsed v = v"

text \<open>\<open>JSON.parse(JSON.stringify(spec))\<close>: the values read back, in cells of their own.\<close>

definition deep_copy :: "document \<Rightarrow> document" where
  "deep_copy spec = map (\<lambda>kv. (fst kv, relabel (\<lambda>l. l + above spec) (reparsed (snd kv)))) spec"

definition path_entries :: "document \<Rightarrow> (string \<times> json) list" where
  "path_entries spec =
     (case map_of spec ''paths'' of None \<Rightarrow> [] | Some p \<Rightarrow> if truthy p then entries p else [])"

definition source_after :: "document \<Rightarrow> (string \<times> json) list \<Rightarrow> document" where
  "source_after spec es =
     (case map_of spec ''paths'' of
        None \<Rightarrow> spec
      | Some p \<Rightarrow> if truthy p then AList.update ''paths'' (with_entries p es) spec else spec)"

definition start :: "config \<Rightarrow> document \<Rightarrow> walk" where
  "start cfg spec =
     \<lparr>pass = initial cfg (Suc (2 * above spec)),
      paths_out = [], paths_src = [], filteredPathItem = [], hasOperations = False, members = []\<rparr>"

definition resolve_all ::
  "host \<Rightarrow> json option \<Rightarrow> config \<Rightarrow> (string \<Rightarrow> bool) option \<Rightarrow> nat \<Rightarrow> document \<Rightarrow> walk \<Rightarrow> walk outcome" where
  "resolve_all h comps cfg rx fuel spec =
     steps [each (process_path h comps cfg rx fuel) (path_entries spec),
            in_pass (root_security h comps fuel (map_of (deep_copy spec) ''security'')),
            in_pass (each (force_error h comps fuel) ERROR_NAMES),
            in_pass (resolve h comps fuel fuel)]"

definition filterOpenAPI :: "host \<Rightarrow> nat \<Rightarrow> document \<Rightarrow> config \<Rightarrow> finished" where
  "filterOpenAPI h fuel spec cfg =
     (case pathRegex h cfg of
        None \<Rightarrow> Raised
      | Some rx \<Rightarrow>
          (case resolve_all h (map_of spec ''components'') cfg rx fuel spec (start cfg spec) of
             OutOfFuel \<Rightarrow> Exhausted
           | Threw w \<Rightarrow> Raised
           | Done w \<Rightarrow>
               (case assemble cfg (pass w) (source_after spec (paths_src w))
                       (assign ''paths'' (JObj (2 * above spec) (paths_out w)) (deep_copy spec)) of
                  None \<Rightarrow> Raised
                | Some d \<Rightarrow>
                    Returned \<lparr>returned = d, input_after = source_after spec (paths_src w), final = pass w\<rparr>)))"

section \<open>What the claims speak of\<close>

fun document_of :: "finished \<Rightarrow> document option" where
  "document_of (Returned r) = Some (returned r)"
| "document_of other = None"

fun input_of :: "finished \<Rightarrow> document option" where
  "input_of (Returned r) = Some (input_after r)"
| "input_of other = None"

fun state_of :: "finished \<Rightarrow> state option" where
  "state_of (Returned r) = Some (final r)"
| "state_of other = None"

fun raised :: "finished \<Rightarrow> bool" where
  "raised Raised = True"
| "raised other = False"

text \<open>A value that the JSON round trip gives back as it was: it holds no number that is
  not finite and no negative zero.\<close>

fun lossless :: "json \<Rightarrow> bool" where
  "lossless (JNum s) = (s \<notin> set [''Infinity'', ''-Infinity'', ''NaN'', ''-0''])"
| "lossless (JArr l xs) = list_all lossless xs"
| "lossless (JObj l kvs) = list_all (\<lambda>kv. lossless (snd kv)) kvs"
| "lossless v = True"

definition component_names :: "document \<Rightarrow> string \<Rightarrow> string list" where
  "component_names d ty =
     (case map_of d ''components'' of
        None \<Rightarrow> []
      | Some c \<Rightarrow> (case get c ty of None \<Rightarrow> [] | Some t \<Rightarrow> map fst (entries t)))"



text \<open>
  What holds after a computation: \<open>Q\<close> of the state it ends in, whether it returned
  or threw; \<open>thr\<close> says whether throwing is admitted, \<open>exh\<close> whether running out
  of fuel is.
\<close>

definition after :: "bool \<Rightarrow> bool \<Rightarrow> ('a \<Rightarrow> bool) \<Rightarrow> 'a outcome \<Rightarrow> bool" where
  "after thr exh Q m = (case m of Done s \<Rightarrow> Q s | Threw s \<Rightarrow> thr \<and> Q s | OutOfFuel \<Rightarrow> exh)"

text \<open>A computation that does not run out of fuel, and ends in \<open>Q\<close> when it returns.\<close>

definition lands :: "('a \<Rightarrow> bool) \<Rightarrow> 'a outcome \<Rightarrow> bool" where
  "lands Q m = (case m of Done s \<Rightarrow> Q s | Threw s \<Rightarrow> True | OutOfFuel \<Rightarrow> False)"

text \<open>
  Fuel that is enough for a document: more than the addresses in play, which are those
  of the document, those of its copy and those of the cells the pass allocates (at most
  two for a path and one for each member of its path item, and one for the root
  security requirement).
\<close>

definition need :: "(string \<times> json) list \<Rightarrow> nat" where
  "need es = sum_list (map (\<lambda>e. 2 + length (entries (snd e))) es)"

definition cells :: "document \<Rightarrow> nat" where
  "cells spec = 2 * above spec + 2 + need (path_entries spec)"

definition enough :: "document \<Rightarrow> nat" where
  "enough spec = Suc (cells spec)"

definition within :: "nat \<Rightarrow> json \<Rightarrow> bool" where
  "within b v = list_all (\<lambda>a. a < b) (labels v)"

text \<open>
  The measure of the \<open>do ... while\<close>: the addresses below \<open>b\<close> that
  \<open>seenObjects\<close> does not hold. A round that sets \<open>hasChanges\<close> has scanned a
  cell that was not in \<open>seenObjects\<close>, so the measure has gone down.
\<close>

definition unseen :: "nat \<Rightarrow> state \<Rightarrow> nat" where
  "unseen b s = card ({..<b} - set (seenObjects s))"

definition progress :: "nat \<Rightarrow> state \<Rightarrow> bool \<times> state \<Rightarrow> bool" where
  "progress b s0 cs =
     (set (seenObjects s0) \<subseteq> set (seenObjects (snd cs)) \<and> (fst cs \<longrightarrow> unseen b (snd cs) < unseen b s0))"

text \<open>A computation that ends in \<open>Q\<close> when it returns.\<close>

definition returns :: "('a \<Rightarrow> bool) \<Rightarrow> 'a outcome \<Rightarrow> bool" where
  "returns Q m = (case m of Done s \<Rightarrow> Q s | other \<Rightarrow> True)"

text \<open>
  The body of the component \<open>name\<close> of the category \<open>ty\<close> has been scanned: it is in
  \<open>seenObjects\<close>, if the name has a definition and the definition is a cell.
\<close>

definition scanned :: "json option \<Rightarrow> state \<Rightarrow> string \<Rightarrow> json option \<Rightarrow> bool" where
  "scanned comps s ty name =
     (case component comps ty name of
        Some (Some c) \<Rightarrow> (case address c of Some a \<Rightarrow> a \<in> set (seenObjects s) | None \<Rightarrow> True)
      | other \<Rightarrow> True)"

text \<open>
  Every name a reachable set holds has its body scanned, but for the names \<open>E\<close> lets
  off. The names the pass puts into a set without scanning their bodies are those of
  \<open>alwaysIncludeComponents\<close>, until the closure has taken the category, and those of
  the security requirements.
\<close>

definition tracked :: "json option \<Rightarrow> (string \<Rightarrow> json option \<Rightarrow> bool) \<Rightarrow> state \<Rightarrow> bool" where
  "tracked comps E s = (\<forall>ty. \<forall>name \<in> set (usedComponents s ty). E ty name \<or> scanned comps s ty name)"

definition forced :: "config \<Rightarrow> string set \<Rightarrow> string \<Rightarrow> json option \<Rightarrow> bool" where
  "forced cfg T ty name =
     (ty = ''securitySchemes'' \<or>
      (ty \<in> set COMPONENT_TYPES \<and> ty \<notin> T \<and>
       name \<in> (\<lambda>n. Some (JStr n)) ` set (alwaysIncludeComponents cfg)))"

definition seeded :: "config \<Rightarrow> state \<Rightarrow> bool" where
  "seeded cfg s =
     (\<forall>ty \<in> set COMPONENT_TYPES. \<forall>n \<in> set (alwaysIncludeComponents cfg).
        Some (JStr n) \<in> set (usedComponents s ty))"

text \<open>
  Where the closure stands in the turn of the category \<open>ty\<close>: \<open>names\<close> are the names
  the category held when its turn came, \<open>N\<close> those the turn has taken. Either
  \<open>hasChanges\<close> is set or the category still holds \<open>names\<close> and no more.
\<close>

definition settled ::
  "json option \<Rightarrow> config \<Rightarrow> (string \<Rightarrow> json option \<Rightarrow> bool) \<Rightarrow> string \<Rightarrow> json option list \<Rightarrow>
   json option set \<Rightarrow> bool \<times> state \<Rightarrow> bool" where
  "settled comps cfg E ty names N cs =
     (tracked comps E (snd cs) \<and> seeded cfg (snd cs) \<and> (\<forall>m \<in> N. scanned comps (snd cs) ty m) \<and>
      (fst cs \<or> usedComponents (snd cs) ty = names))"

text \<open>
  \<open>rec\<close> keeps \<open>I\<close> on every value that is \<open>ok\<close>; \<open>ok\<close> passes from a value
  to the values of its properties.
\<close>

definition recurses ::
  "bool \<Rightarrow> bool \<Rightarrow> ('s \<Rightarrow> bool) \<Rightarrow> (json \<Rightarrow> bool) \<Rightarrow> (json \<Rightarrow> 's \<Rightarrow> 's outcome) \<Rightarrow> bool" where
  "recurses thr exh I ok rec = (\<forall>v s. I s \<longrightarrow> ok v \<longrightarrow> after thr exh I (rec v s))"

definition hereditary :: "(json \<Rightarrow> bool) \<Rightarrow> bool" where
  "hereditary ok = (\<forall>v w. ok v \<longrightarrow> w \<in> set (vals v) \<longrightarrow> ok w)"

text \<open>
  The shapes on which the scan of one node throws nothing that escapes: a reference and
  an \<open>x-responseDTO\<close> that print, \<open>parameters\<close> an array without \<open>null\<close>,
  \<open>content\<close> without a \<open>null\<close> member, \<open>security\<close> an array.
\<close>

definition prints :: "json option \<Rightarrow> bool" where
  "prints v = (case v of None \<Rightarrow> True | Some r \<Rightarrow> if truthy r then to_str r \<noteq> None else True)"

definition shaped :: "json \<Rightarrow> bool" where
  "shaped obj =
     (prints (get obj ''$ref'') \<and> prints (get obj ''x-responseDTO'') \<and>
      (case get obj ''parameters'' of
         None \<Rightarrow> True
       | Some p \<Rightarrow> if truthy p then (case p of JArr l ps \<Rightarrow> JNull \<notin> set ps | other \<Rightarrow> False) else True) \<and>
      (case get obj ''content'' of
         None \<Rightarrow> True
       | Some c \<Rightarrow> if truthy c then JNull \<notin> set (vals c) else True) \<and>
      (case get obj ''security'' of
         None \<Rightarrow> True
       | Some s \<Rightarrow> if truthy s then is_array s else True))"

text \<open>
  The input as the pass leaves it, said without the pass: in every path the pattern
  lets through, every operation that survives the tag filter has its \<open>parameters\<close>
  replaced by the deduplicated array; nothing else differs.
\<close>

definition operation_after :: "config \<Rightarrow> string \<times> json \<Rightarrow> string \<times> json" where
  "operation_after cfg e =
     (if fst e \<in> set METHODS then
        (case operationTags (snd e) of
           None \<Rightarrow> e
         | Some ts \<Rightarrow>
             if shouldInclude cfg ts
             then (case deduplicate 0 (snd e) of None \<Rightarrow> e | Some operation' \<Rightarrow> (fst e, operation'))
             else e)
      else e)"

definition item_after :: "(string \<Rightarrow> bool) option \<Rightarrow> config \<Rightarrow> string \<times> json \<Rightarrow> string \<times> json" where
  "item_after rx cfg e =
     (if (case rx of None \<Rightarrow> False | Some test \<Rightarrow> \<not> test (fst e)) then e
      else (fst e, with_entries (snd e) (map (operation_after cfg) (entries (snd e)))))"

definition expected_input :: "(string \<Rightarrow> bool) option \<Rightarrow> config \<Rightarrow> document \<Rightarrow> document" where
  "expected_input rx cfg spec = source_after spec (map (item_after rx cfg) (path_entries spec))"

text \<open>The operation \<open>d.paths[p][m]\<close> of a document, and its parameter list.\<close>

definition operation_at :: "document \<Rightarrow> string \<Rightarrow> string \<Rightarrow> json option" where
  "operation_at d p m =
     (case map_of d ''paths'' of
        None \<Rightarrow> None
      | Some paths \<Rightarrow> (case get paths p of None \<Rightarrow> None | Some pathItem \<Rightarrow> get pathItem m))"

definition parameters_at :: "document \<Rightarrow> string \<Rightarrow> string \<Rightarrow> json list option" where
  "parameters_at d p m =
     (case operation_at d p m of
        None \<Rightarrow> None
      | Some operation \<Rightarrow> (case get operation ''parameters'' of Some (JArr a ps) \<Rightarrow> Some ps | other \<Rightarrow> None))"

text \<open>
  \<open>operation'\<close> is what the deduplication makes of \<open>operation\<close>: the address of the
  new array is read off \<open>operation'\<close>.
\<close>

definition deduplicated :: "json \<Rightarrow> json \<Rightarrow> bool" where
  "deduplicated operation operation' =
     (deduplicate (case get operation' ''parameters'' of Some (JArr a u) \<Rightarrow> a | other \<Rightarrow> 0) operation
        = Some operation')"

text \<open>
  A member of a path item of the output comes from the source: under a method, it is
  what the deduplication makes of an operation that the source path item has under
  that method and the tag filter keeps.
\<close>

definition kept_from :: "config \<Rightarrow> json \<Rightarrow> string \<times> json \<Rightarrow> bool" where
  "kept_from cfg pathItem m =
     list_ex (\<lambda>e. fst e = fst m \<and> snd e \<noteq> JNull \<and>
                   (case operationTags (snd e) of None \<Rightarrow> False | Some ts \<Rightarrow> shouldInclude cfg ts) \<and>
                   deduplicated (snd e) (snd m))
       (entries pathItem)"

definition members_from :: "config \<Rightarrow> json \<Rightarrow> (string \<times> json) list \<Rightarrow> bool" where
  "members_from cfg pathItem kvs = list_all (\<lambda>m. fst m \<in> set METHODS \<longrightarrow> kept_from cfg pathItem m) kvs"

definition item_from :: "config \<Rightarrow> (string \<times> json) list \<Rightarrow> string \<times> json \<Rightarrow> bool" where
  "item_from cfg es e' =
     list_ex (\<lambda>e. fst e = fst e' \<and>
                   (case snd e' of JObj a kvs \<Rightarrow> members_from cfg (snd e) kvs | other \<Rightarrow> False))
       es"

text \<open>The walk is at the path item \<open>pathItem\<close> of the source whose paths are \<open>es\<close>.\<close>

definition linked :: "config \<Rightarrow> (string \<times> json) list \<Rightarrow> json \<Rightarrow> walk \<Rightarrow> bool" where
  "linked cfg es pathItem w =
     (list_all (item_from cfg es) (paths_out w) \<and> members_from cfg pathItem (filteredPathItem w))"

text \<open>The tags of the operations a path item, and a list of paths, has under a method.\<close>

definition item_tags :: "(string \<times> json) list \<Rightarrow> json option list" where
  "item_tags kvs =
     concat (map (\<lambda>e. if fst e \<in> set METHODS
                        then (case operationTags (snd e) of Some ts \<Rightarrow> map Some ts | None \<Rightarrow> [])
                        else []) kvs)"

definition paths_tags :: "(string \<times> json) list \<Rightarrow> json option list" where
  "paths_tags es = concat (map (\<lambda>e. item_tags (entries (snd e))) es)"








definition location_name :: "json \<Rightarrow> ident \<times> ident" where
  "location_name param = (ident_opt (get param ''in''), ident_opt (get param ''name''))"

function first_of_each :: "('a \<Rightarrow> 'k) \<Rightarrow> 'a list \<Rightarrow> 'a list" where
  "first_of_each key [] = []"
| "first_of_each key (x # xs) = x # first_of_each key (filter (\<lambda>y. key y \<noteq> key x) xs)"
  by pat_completeness auto
termination
  by (relation "measure (\<lambda>p. length (snd p))") (auto simp: less_Suc_eq_le)

fun str_of :: "json option \<Rightarrow> string option" where
  "str_of (Some (JStr s)) = Some s"
| "str_of other = None"

definition standard_param :: "json \<Rightarrow> bool" where
  "standard_param param =
     (case str_of (get param ''in'') of
        None \<Rightarrow> False
      | Some a \<Rightarrow> (case str_of (get param ''name'') of None \<Rightarrow> False | Some b \<Rightarrow> CHR ''.'' \<notin> set a))"

definition offline :: host where
  "offline = \<lparr>url_parse = (\<lambda>s. None), regexp = (\<lambda>p. None)\<rparr>"

definition by_user :: config where
  "by_user = \<lparr>tags = [''User''], pathPattern = None, excludeInternalComponents = False,
      alwaysIncludeComponents = []\<rparr>"

definition doc_ref :: document where
  "doc_ref =
     [(''openapi'', JStr ''3.0.0''),
      (''paths'', JObj 1 [(''/users'', JObj 2 [(''get'', JObj 3
          [(''tags'', JArr 4 [JStr ''User'']),
           (''responses'', JObj 5 [(''200'', JObj 6 [(''$ref'', JStr ''#/components/schemas/Foo'')])])])])]),
      (''components'', JObj 7 [(''schemas'', JObj 8 [(''Foo'', JObj 9 [(''type'', JStr ''object'')])])])]"

definition doc_dropped :: document where
  "doc_dropped =
     [(''openapi'', JStr ''3.0.0''),
      (''paths'', JObj 1
         [(''/a'', JObj 2
             [(''get'', JObj 3 [(''tags'', JArr 4 [JStr ''User''])]),
              (''post'', JObj 5 [(''tags'', JArr 6 [JStr ''Admin'']), (''x-responseDTO'', JStr ''Foo'')])]),
          (''/b'', JObj 10
             [(''parameters'', JArr 11 [JObj 12 [(''in'', JStr ''query''), (''name'', JStr ''q''),
                 (''schema'', JObj 13 [(''x-responseDTO'', JStr ''Bar'')])]]),
              (''get'', JObj 14 [(''tags'', JArr 15 [JStr ''Admin''])])])]),
      (''components'', JObj 7 [(''schemas'', JObj 8
          [(''Foo'', JObj 9 [(''type'', JStr ''object'')]),
           (''Bar'', JObj 16 [(''type'', JStr ''object'')]),
           (''Baz'', JObj 17 [(''type'', JStr ''object'')])])])]"

definition param_qa :: json where
  "param_qa = JObj 30 [(''in'', JStr ''query''), (''name'', JStr ''a'')]"

definition param_ha :: json where
  "param_ha = JObj 31 [(''in'', JStr ''header''), (''name'', JStr ''a'')]"

definition param_qa' :: json where
  "param_qa' = JObj 32 [(''in'', JStr ''query''), (''name'', JStr ''a'')]"

definition doc_params :: document where
  "doc_params =
     [(''paths'', JObj 1 [(''/users'', JObj 2 [(''get'', JObj 3
          [(''tags'', JArr 4 [JStr ''User'']),
           (''parameters'', JArr 5 [param_qa, param_ha, param_qa'])])])])]"

definition param_dotted :: json where
  "param_dotted = JObj 33 [(''in'', JStr ''a.b''), (''name'', JStr ''c'')]"

definition param_dotted' :: json where
  "param_dotted' = JObj 34 [(''in'', JStr ''a''), (''name'', JStr ''b.c'')]"

definition doc_internal :: document where
  "doc_internal =
     [(''paths'', JObj 1 []),
      (''components'', JObj 2 [(''schemas'', JObj 3
          [(''Foo'', JObj 4 [(''type'', JStr ''object''), (''x-internal'', JBool True)])])])]"

definition keep_foo :: config where
  "keep_foo = \<lparr>tags = [], pathPattern = None, excludeInternalComponents = True,
      alwaysIncludeComponents = [''Foo'']\<rparr>"

definition doc_property :: document where
  "doc_property =
     [(''paths'', JObj 1 [(''/search'', JObj 2 [(''post'', JObj 3
          [(''tags'', JArr 4 [JStr ''User'']),
           (''requestBody'', JObj 5 [(''content'', JObj 6 [(''application/json'', JObj 7
              [(''schema'', JObj 8 [(''type'', JStr ''object''),
                  (''properties'', JObj 9 [(''parameters'', JObj 10 [(''type'', JStr ''string'')])])])])])])])])])]"





text \<open>The document \<open>{"info": {"title": "t", "x-limit": 1e999, "x-zero": -0}, "paths": {}}\<close>.\<close>

definition doc_limits :: document where
  "doc_limits =
     [(''info'', JObj 1 [(''title'', JStr ''t''), (''x-limit'', JNum ''Infinity''), (''x-zero'', JNum ''-0'')]),
      (''paths'', JObj 2 [])]"

text \<open>
  Two schemas that refer to each other by \<open>$ref\<close>, and an operation whose response
  refers to the first.
\<close>

definition doc_ref_cycle :: document where
  "doc_ref_cycle =
     [(''openapi'', JStr ''3.0.0''),
      (''paths'', JObj 1 [(''/users'', JObj 2 [(''get'', JObj 3
          [(''tags'', JArr 4 [JStr ''User'']),
           (''responses'', JObj 5 [(''200'', JObj 6 [(''$ref'', JStr ''#/components/schemas/A'')])])])])]),
      (''components'', JObj 7 [(''schemas'', JObj 8
          [(''A'', JObj 9 [(''type'', JStr ''object''),
              (''properties'', JObj 10 [(''next'', JObj 11 [(''$ref'', JStr ''#/components/schemas/B'')])])]),
           (''B'', JObj 12 [(''type'', JStr ''object''),
              (''properties'', JObj 13 [(''back'', JObj 14 [(''$ref'', JStr ''#/components/schemas/A'')])])])])])]"

text \<open>An operation with the two parameters whose keys collide.\<close>

definition doc_dotted :: document where
  "doc_dotted =
     [(''paths'', JObj 1 [(''/users'', JObj 2 [(''get'', JObj 3
          [(''tags'', JArr 4 [JStr ''User'']),
           (''parameters'', JArr 5 [param_dotted, param_dotted'])])])])]"

definition out_params :: document where
  "out_params =
     [(''paths'', JObj 66 [(''/users'', JObj 67 [(''get'', JObj 3
          [(''tags'', JArr 4 [JStr ''User'']),
           (''parameters'', JArr 68 [param_qa, param_ha])])])])]"

definition out_ref :: document where
  "out_ref =
     [(''openapi'', JStr ''3.0.0''),
      (''paths'', JObj 20 [(''/users'', JObj 21 [(''get'', JObj 3
          [(''tags'', JArr 4 [JStr ''User'']),
           (''responses'', JObj 5 [(''200'', JObj 6 [(''$ref'', JStr ''#/components/schemas/Foo'')])])])])])]"

definition params_after :: document where
  "params_after =
     [(''paths'', JObj 1 [(''/users'', JObj 2 [(''get'', JObj 3
          [(''tags'', JArr 4 [JStr ''User'']),
           (''parameters'', JArr 68 [param_qa, param_ha])])])])]"

definition force_foo :: config where
  "force_foo = \<lparr>tags = [], pathPattern = None, excludeInternalComponents = False,
      alwaysIncludeComponents = [''Foo'']\<rparr>"

definition foo_schema :: json where
  "foo_schema = JObj 4 [(''type'', JStr ''object''), (''x-internal'', JBool True)]"

definition out_foo :: document where
  "out_foo =
     [(''paths'', JObj 10 []),
      (''components'', JObj 11 [(''schemas'', JObj 12 [(''Foo'', foo_schema)])])]"







section \<open>Parameter deduplication\<close>

lemma uniqueParams_general:
  "list_all (\<lambda>p. param_key p \<noteq> None) ps \<Longrightarrow>
   uniqueParams seenParams ps =
     Some (first_of_each param_key (filter (\<lambda>p. the (param_key p) \<notin> set seenParams) ps))"
proof (induction ps arbitrary: seenParams)
  case Nil
  then show ?case by simp
next
  case (Cons p ps)
  from Cons.prems obtain k where k: "param_key p = Some k" by auto
  from Cons.prems have rest: "list_all (\<lambda>p. param_key p \<noteq> None) ps" by simp
  show ?case
  proof (cases "k \<in> set seenParams")
    case True
    then show ?thesis using k Cons.IH [OF rest] by simp
  next
    case False
    have same: "filter (\<lambda>y. param_key y \<noteq> Some k) (filter (\<lambda>p. the (param_key p) \<notin> set seenParams) ps)
        = filter (\<lambda>p. the (param_key p) \<notin> set (seenParams @ [k])) ps"
      using rest by (induction ps) auto
    show ?thesis using False k Cons.IH [OF rest, of "seenParams @ [k]"] same by simp
  qed
qed

lemma first_of_each_cong:
  "(\<And>x y. x \<in> set xs \<Longrightarrow> y \<in> set xs \<Longrightarrow> (f x = f y) = (g x = g y)) \<Longrightarrow>
   first_of_each f xs = first_of_each g xs"
proof (induction f xs rule: first_of_each.induct)
  case (1 key)
  then show ?case by simp
next
  case (2 key x xs)
  have same: "filter (\<lambda>y. key y \<noteq> key x) xs = filter (\<lambda>y. g y \<noteq> g x) xs"
    using "2.prems" by (intro filter_cong) auto
  have "first_of_each key (filter (\<lambda>y. key y \<noteq> key x) xs) = first_of_each g (filter (\<lambda>y. key y \<noteq> key x) xs)"
    using "2.prems" by (intro "2.IH") auto
  then show ?case using same by simp
qed

lemma sep_inject:
  "c \<notin> set a \<Longrightarrow> c \<notin> set a' \<Longrightarrow> a @ c # b = a' @ c # b' \<Longrightarrow> a = a' \<and> b = b'"
proof (induction a arbitrary: a')
  case Nil
  then show ?case by (cases a') auto
next
  case (Cons x a)
  then show ?case by (cases a') auto
qed

lemma str_of_Some: "str_of v = Some s \<Longrightarrow> v = Some (JStr s)"
  by (cases "(v)" rule: str_of.cases) auto

lemma get_null: "get JNull k = None"
  by (simp add: get_def)

lemma standard_key:
  assumes "standard_param p"
  shows "\<exists>a b. get p ''in'' = Some (JStr a) \<and> get p ''name'' = Some (JStr b) \<and>
      CHR ''.'' \<notin> set a \<and> param_key p = Some (a @ ''.'' @ b)"
proof -
  from assms obtain a b where ab: "str_of (get p ''in'') = Some a" "str_of (get p ''name'') = Some b"
      "CHR ''.'' \<notin> set a"
    by (auto simp: standard_param_def split: option.splits)
  then have g: "get p ''in'' = Some (JStr a)" "get p ''name'' = Some (JStr b)"
    by (auto dest: str_of_Some)
  then have "p \<noteq> JNull" using get_null by auto
  then have "param_key p = Some (a @ ''.'' @ b)" using g by (simp add: param_key_def)
  with g ab show ?thesis by blast
qed

lemma standard_same:
  assumes "standard_param p" "standard_param q"
  shows "(param_key p = param_key q) = (location_name p = location_name q)"
proof -
  from standard_key [OF assms(1)] obtain a b where
    p: "get p ''in'' = Some (JStr a)" "get p ''name'' = Some (JStr b)" "CHR ''.'' \<notin> set a"
       "param_key p = Some (a @ ''.'' @ b)" by blast
  from standard_key [OF assms(2)] obtain a' b' where
    q: "get q ''in'' = Some (JStr a')" "get q ''name'' = Some (JStr b')" "CHR ''.'' \<notin> set a'"
       "param_key q = Some (a' @ ''.'' @ b')" by blast
  have inj: "a @ CHR ''.'' # b = a' @ CHR ''.'' # b' \<Longrightarrow> a = a' \<and> b = b'"
    using sep_inject [OF p(3) q(3)] by blast
  have "(param_key p = param_key q) = (a = a' \<and> b = b')"
    unfolding p(4) q(4) using inj by auto
  moreover have "(location_name p = location_name q) = (a = a' \<and> b = b')"
    unfolding location_name_def p(1,2) q(1,2) by simp
  ultimately show ?thesis by simp
qed

text \<open>
  \<open>uniqueParams\<close> keeps the first parameter of each key
  \<open>`${param.in}.${param.name}`\<close> and drops every later one, in the order of the input,
  whenever every key can be printed (no \<open>null\<close> parameter, no TypeError). When every
  parameter has a string location without a dot and a string name, two keys are equal
  exactly when location and name both are, and the result is the first parameter of each
  (location, name) pair.
\<close>

lemma uniqueParams_keys:
  "(list_all (\<lambda>p. param_key p \<noteq> None) ps \<longrightarrow> uniqueParams [] ps = Some (first_of_each param_key ps)) \<and>
   (list_all standard_param ps \<longrightarrow> uniqueParams [] ps = Some (first_of_each location_name ps))"
proof (intro conjI impI)
  assume "list_all (\<lambda>p. param_key p \<noteq> None) ps"
  from uniqueParams_general [OF this, of "[]"]
  show "uniqueParams [] ps = Some (first_of_each param_key ps)" by simp
next
  assume std: "list_all standard_param ps"
  then have keyed: "list_all (\<lambda>p. param_key p \<noteq> None) ps"
    by (auto simp: list_all_iff dest: standard_key)
  have "first_of_each param_key ps = first_of_each location_name ps"
    using std by (intro first_of_each_cong standard_same) (auto simp: list_all_iff)
  with uniqueParams_general [OF keyed, of "[]"]
  show "uniqueParams [] ps = Some (first_of_each location_name ps)" by simp
qed

section \<open>The assembler's frame\<close>

lemma map_of_assign: "k \<noteq> k' \<Longrightarrow> map_of (assign k' v d) k = map_of d k"
  by (simp add: assign_def update_conv')

lemma map_of_assign_same: "k \<noteq> ''__proto__'' \<Longrightarrow> map_of (assign k v d) k = Some v"
  by (simp add: assign_def update_conv')



lemma clean_field_other: "k \<noteq> f \<Longrightarrow> map_of (clean_field f d) k = map_of d k"
  by (cases "map_of d f") (auto simp: clean_field_def delete_conv')


lemma clean_empty_unfold:
  "clean_empty d = clean_field ''tags'' (clean_field ''security'' (clean_field ''components'' d))"
  by (simp add: clean_empty_def)

lemma map_of_clean_empty_other:
  assumes "k \<noteq> ''components''" "k \<noteq> ''security''" "k \<noteq> ''tags''"
  shows "map_of (clean_empty d) k = map_of d k"
  unfolding clean_empty_unfold using assms by (simp add: clean_field_other)


lemma map_of_filter_components:
  "filter_components cfg st spec d = Some d' \<Longrightarrow> k \<noteq> ''components'' \<Longrightarrow> map_of d' k = map_of d k"
  by (auto simp: filter_components_def map_of_assign split: option.splits if_splits)

lemma map_of_preserve_schemes:
  "k \<noteq> ''securitySchemes'' \<Longrightarrow> map_of (preserve_schemes spec d) k = map_of d k"
  by (auto simp: preserve_schemes_def map_of_assign split: option.splits)

lemma map_of_filter_tags:
  "filter_tags cfg st spec d = Some d' \<Longrightarrow> k \<noteq> ''tags'' \<Longrightarrow> map_of d' k = map_of d k"
  by (auto simp: filter_tags_def map_of_assign split: option.splits if_splits)

lemma relabel_relabel: "relabel g (relabel f v) = relabel (\<lambda>l. g (f l)) v"
  by (induction f v rule: relabel.induct) auto

lemma plain_relabel: "plain (relabel f v) = plain v"
  by (simp add: plain_def relabel_relabel)

lemma map_of_map_snd:
  "map_of (map (\<lambda>kv. (fst kv, g (snd kv))) xs) k = map_option g (map_of xs k)"
  by (induction xs) auto

lemma map_of_deep_copy:
  "map_of (deep_copy spec) k = map_option (\<lambda>v. relabel (\<lambda>l. l + above spec) (reparsed v)) (map_of spec k)"
  unfolding deep_copy_def by (rule map_of_map_snd)

lemma assemble_other:
  assumes "assemble cfg st spec d = Some d'"
    and "k \<notin> {''components'', ''security'', ''tags'', ''securitySchemes''}"
  shows "map_of d' k = map_of d k"
proof -
  from assms(1) obtain d1 d2 where
    1: "filter_components cfg st spec d = Some d1" and
    2: "filter_tags cfg st spec (preserve_schemes spec d1) = Some d2" and
    3: "d' = clean_empty d2"
    by (auto simp: assemble_def split: option.splits)
  from assms(2) have "map_of d' k = map_of d2 k" unfolding 3 by (intro map_of_clean_empty_other) auto
  also have "\<dots> = map_of (preserve_schemes spec d1) k" using 2 assms(2) by (intro map_of_filter_tags) auto
  also have "\<dots> = map_of d1 k" using assms(2) by (intro map_of_preserve_schemes) auto
  also have "\<dots> = map_of d k" using 1 assms(2) by (intro map_of_filter_components) auto
  finally show ?thesis .
qed

lemma filterOpenAPI_Returned:
  assumes "filterOpenAPI h fuel spec cfg = Returned r"
  shows "\<exists>rx w. pathRegex h cfg = Some rx \<and>
      resolve_all h (map_of spec ''components'') cfg rx fuel spec (start cfg spec) = Done w \<and>
      assemble cfg (pass w) (source_after spec (paths_src w))
        (assign ''paths'' (JObj (2 * above spec) (paths_out w)) (deep_copy spec)) = Some (returned r) \<and>
      input_after r = source_after spec (paths_src w) \<and> final r = pass w"
proof (cases "pathRegex h cfg")
  case None
  with assms show ?thesis by (simp add: filterOpenAPI_def)
next
  case (Some rx)
  show ?thesis
  proof (cases "resolve_all h (map_of spec ''components'') cfg rx fuel spec (start cfg spec)")
    case (Done w)
    show ?thesis
    proof (cases "assemble cfg (pass w) (source_after spec (paths_src w))
        (assign ''paths'' (JObj (2 * above spec) (paths_out w)) (deep_copy spec))")
      case None
      with assms Some Done show ?thesis by (simp add: filterOpenAPI_def)
    next
      case (Some d)
      with assms \<open>pathRegex h cfg = Some rx\<close> Done show ?thesis
        by (simp add: filterOpenAPI_def) auto
    qed
  next
    case (Threw w)
    with assms Some show ?thesis by (simp add: filterOpenAPI_def)
  next
    case OutOfFuel
    with assms Some show ?thesis by (simp add: filterOpenAPI_def)
  qed
qed

lemma document_of_Some: "document_of x = Some d \<Longrightarrow> \<exists>r. x = Returned r \<and> returned r = d"
  by (cases x) auto

lemma returned_assemble:
  assumes "document_of (filterOpenAPI h fuel spec cfg) = Some d"
  shows "\<exists>st src ps. assemble cfg st src (assign ''paths'' ps (deep_copy spec)) = Some d"
proof -
  from document_of_Some [OF assms] obtain r where r: "filterOpenAPI h fuel spec cfg = Returned r" "returned r = d"
    by blast
  from filterOpenAPI_Returned [OF r(1)] r(2) show ?thesis by blast
qed


lemma map_of_source_after: "k \<noteq> ''paths'' \<Longrightarrow> map_of (source_after spec es) k = map_of spec k"
  by (cases "map_of spec ''paths''") (auto simp: source_after_def update_conv')









lemma reparsed_lossless: "lossless v \<Longrightarrow> reparsed v = v"
proof (induction v rule: reparsed.induct)
  case (2 l xs)
  then have "map reparsed xs = xs" by (simp add: list_all_iff map_idI)
  then show ?case by simp
next
  case (3 l kvs)
  then have "map (\<lambda>kv. (fst kv, reparsed (snd kv))) kvs = kvs"
    by (intro map_idI) (simp add: list_all_iff)
  then show ?case by simp
qed simp_all

text \<open>
  Claim C10, as the code has it. A top-level field other than \<open>paths\<close>, \<open>components\<close>,
  \<open>tags\<close>, \<open>security\<close> and \<open>securitySchemes\<close> is in the document returned exactly
  when it is in the input, with the value the JSON round trip of the deep copy gives
  for the input's: equal to it up to the addresses of the cells, but with \<open>null\<close> for
  every number that is not finite and zero for negative zero. A value that holds
  neither comes out equal to the input's.
\<close>

theorem untouched_fields:
  assumes "document_of (filterOpenAPI h fuel spec cfg) = Some d"
    and "k \<notin> {''paths'', ''components'', ''tags'', ''security'', ''securitySchemes''}"
  shows "map_option plain (map_of d k) = map_option (\<lambda>v. plain (reparsed v)) (map_of spec k) \<and>
         ((case map_of spec k of None \<Rightarrow> True | Some v \<Rightarrow> lossless v) \<longrightarrow>
          map_option plain (map_of d k) = map_option plain (map_of spec k))"
proof -
  from returned_assemble [OF assms(1)] obtain st src ps where
    a: "assemble cfg st src (assign ''paths'' ps (deep_copy spec)) = Some d" by blast
  from assms(2) have "map_of d k = map_of (assign ''paths'' ps (deep_copy spec)) k"
    by (intro assemble_other [OF a]) auto
  also have "\<dots> = map_of (deep_copy spec) k" using assms(2) by (intro map_of_assign) auto
  finally have 1: "map_option plain (map_of d k) = map_option (\<lambda>v. plain (reparsed v)) (map_of spec k)"
    by (simp add: map_of_deep_copy option.map_comp comp_def plain_relabel)
  moreover have "map_option (\<lambda>v. plain (reparsed v)) (map_of spec k) = map_option plain (map_of spec k)"
    if "case map_of spec k of None \<Rightarrow> True | Some v \<Rightarrow> lossless v"
    using that by (cases "map_of spec k") (simp_all add: reparsed_lossless)
  ultimately show ?thesis by simp
qed

text \<open>The field \<open>openapi\<close> of the document of claim C1.\<close>

theorem untouched_fields_witness:
  "document_of (filterOpenAPI offline 20 doc_ref by_user) = Some out_ref \<and>
   ''openapi'' \<notin> {''paths'', ''components'', ''tags'', ''security'', ''securitySchemes''} \<and>
   (case map_of doc_ref ''openapi'' of None \<Rightarrow> True | Some v \<Rightarrow> lossless v) \<and>
   map_option plain (map_of out_ref ''openapi'') = map_option plain (map_of doc_ref ''openapi'')"
proof -
  have 1: "document_of (filterOpenAPI offline 20 doc_ref by_user) = Some out_ref" by code_simp
  have 2: "''openapi'' \<notin> {''paths'', ''components'', ''tags'', ''security'', ''securitySchemes''}" by simp
  have 3: "case map_of doc_ref ''openapi'' of None \<Rightarrow> True | Some v \<Rightarrow> lossless v" by code_simp
  from untouched_fields [OF 1 2] 1 2 3 show ?thesis by blast
qed

text \<open>
  As claim C10 states it, the value is the input's. The field \<open>info\<close> holds the number
  \<open>JSON.parse\<close> gives for \<open>1e999\<close> and a negative zero: the document returned has
  \<open>null\<close> and zero in their places.
\<close>

theorem non_finite_number_counterexample:
  "\<forall>h. map_option (\<lambda>d. map_of d ''info'') (document_of (filterOpenAPI h 20 doc_limits by_user))
     = Some (Some (JObj 4 [(''title'', JStr ''t''), (''x-limit'', JNull), (''x-zero'', JNum ''0'')])) \<and>
   map_option (\<lambda>d. map_option plain (map_of d ''info'')) (document_of (filterOpenAPI h 20 doc_limits by_user))
     \<noteq> Some (map_option plain (map_of doc_limits ''info''))"
  by (rule allI) code_simp

section \<open>Sequencing\<close>

lemma andthen_Done: "andthen m f = Done s' \<Longrightarrow> \<exists>s. m = Done s \<and> f s = Done s'"
  by (cases m) (auto simp: andthen_def)

lemma each_Cons_Done: "each f (x # xs) s = Done s' \<Longrightarrow> \<exists>s1. f x s = Done s1 \<and> each f xs s1 = Done s'"
  by (auto dest: andthen_Done)

lemma steps_Cons_Done: "steps (f # fs) s = Done s' \<Longrightarrow> \<exists>s1. f s = Done s1 \<and> steps fs s1 = Done s'"
  by (auto dest: andthen_Done)

lemma in_pass_Done:
  fixes w :: walk
  shows "in_pass f w = Done w' \<Longrightarrow> \<exists>s. f (pass w) = Done s \<and> w' = w\<lparr>pass := s\<rparr>"
  by (cases "f (pass w)") (auto simp: in_pass_def)

section \<open>What the pass leaves of the input\<close>

lemma plain_simps [simp]:
  "plain (JObj l kvs) = JObj 0 (plain_doc kvs)"
  "plain (JArr l xs) = JArr 0 (map plain xs)"
  "plain JNull = JNull" "plain (JBool b) = JBool b" "plain (JNum n) = JNum n" "plain (JStr s) = JStr s"
  by (simp_all add: plain_def plain_doc_def)

lemma plain_doc_simps [simp]:
  "plain_doc [] = []"
  "plain_doc (e # es) = (fst e, plain (snd e)) # plain_doc es"
  by (simp_all add: plain_doc_def)

lemma plain_doc_append: "plain_doc (xs @ ys) = plain_doc xs @ plain_doc ys"
  by (simp add: plain_doc_def)

lemma plain_doc_update: "plain_doc (AList.update k v al) = AList.update k (plain v) (plain_doc al)"
  by (induction al) (auto simp: plain_doc_def)

lemma plain_doc_assign: "plain_doc (assign k v al) = assign k (plain v) (plain_doc al)"
  by (simp add: assign_def plain_doc_update)

lemma plain_put: "plain v = plain v' \<Longrightarrow> plain (put k v operation) = plain (put k v' operation)"
  by (cases operation) (simp_all add: plain_doc_assign)

lemma deduplicate_address:
  assumes "deduplicate a operation = Some x"
  shows "\<exists>y. deduplicate b operation = Some y \<and> plain y = plain x"
proof (cases "get operation ''parameters''")
  case None
  with assms show ?thesis by (simp add: deduplicate_def)
next
  case (Some p)
  show ?thesis
  proof (cases "truthy p")
    case False
    with assms Some show ?thesis by (simp add: deduplicate_def)
  next
    case True
    show ?thesis
    proof (cases p)
      case (JArr l ps)
      with assms Some True obtain u where u: "uniqueParams [] ps = Some u"
          and x: "x = put ''parameters'' (JArr a u) operation"
        by (auto simp: deduplicate_def)
      have "deduplicate b operation = Some (put ''parameters'' (JArr b u) operation)"
        using Some True JArr u by (simp add: deduplicate_def)
      moreover have "plain (put ''parameters'' (JArr b u) operation) = plain x"
        unfolding x by (rule plain_put) simp
      ultimately show ?thesis by blast
    qed (use assms Some True in \<open>simp_all add: deduplicate_def\<close>)
  qed
qed

lemma process_operation_Done:
  fixes w :: walk
  assumes "process_operation h comps cfg fuel e w = Done w'"
  shows "paths_src w' = paths_src w \<and> plain_doc (members w') = plain_doc (members w @ [operation_after cfg e])"
proof (cases "fst e \<in> set METHODS")
  case False
  with assms show ?thesis
    by (auto simp: process_operation_def keep_def operation_after_def Let_def)
next
  case True
  note m = True
  from assms m have nn: "snd e \<noteq> JNull" by (auto simp: process_operation_def Let_def split: if_splits)
  show ?thesis
  proof (cases "operationTags (snd e)")
    case None
    with assms m nn show ?thesis by (simp add: process_operation_def Let_def)
  next
    case (Some ts)
    show ?thesis
    proof (cases "shouldInclude cfg ts")
      case False
      with assms m nn Some show ?thesis
        by (auto simp: process_operation_def keep_def operation_after_def Let_def)
    next
      case True
      show ?thesis
      proof (cases "deduplicate (fresh (pass w)) (snd e)")
        case None
        with assms m nn Some True show ?thesis by (simp add: process_operation_def Let_def)
      next
        case (Some x)
        from deduplicate_address [OF Some, of 0] obtain y where
          y: "deduplicate 0 (snd e) = Some y" "plain y = plain x" by blast
        from assms m nn \<open>operationTags (snd e) = Some ts\<close> True Some
        obtain s where "w' = (keep (fst e) x
                            (w\<lparr>pass := alloc ((pass w)\<lparr>usedTags := foldl (\<lambda>s t. add (Some t) s) (usedTags (pass w)) ts\<rparr>),
                               filteredPathItem := assign (fst e) x (filteredPathItem w),
                               hasOperations := True\<rparr>))\<lparr>pass := s\<rparr>"
          by (auto simp: process_operation_def Let_def dest!: in_pass_Done)
        then have "paths_src w' = paths_src w" "members w' = members w @ [(fst e, x)]"
          by (simp_all add: keep_def)
        moreover have "operation_after cfg e = (fst e, y)"
          using m \<open>operationTags (snd e) = Some ts\<close> True y by (simp add: operation_after_def)
        ultimately show ?thesis using y by (simp add: plain_doc_def)
      qed
    qed
  qed
qed

lemma each_process_operation_Done:
  fixes w :: walk
  shows "each (process_operation h comps cfg fuel) es w = Done w' \<Longrightarrow>
   paths_src w' = paths_src w \<and> plain_doc (members w') = plain_doc (members w @ map (operation_after cfg) es)"
proof (induction es arbitrary: w)
  case Nil
  then show ?case by simp
next
  case (Cons e es)
  from each_Cons_Done [OF Cons.prems] obtain w1 where
    1: "process_operation h comps cfg fuel e w = Done w1" and 2: "each (process_operation h comps cfg fuel) es w1 = Done w'"
    by blast
  from process_operation_Done [OF 1] Cons.IH [OF 2] show ?case
    by (simp add: plain_doc_append)
qed

lemma plain_with_entries:
  "plain_doc es = plain_doc es' \<Longrightarrow> plain (with_entries v es) = plain (with_entries v es')"
proof (cases v)
  case (JArr l xs)
  assume "plain_doc es = plain_doc es'"
  then have "map snd (plain_doc es) = map snd (plain_doc es')" by simp
  then have "map plain (map snd es) = map plain (map snd es')" by (simp add: plain_doc_def comp_def)
  with JArr show ?thesis by simp
qed simp_all

lemma finish_path_Done:
  fixes w :: walk
  assumes "finish_path h comps fuel a path pathItem w = Done w'"
  shows "paths_src w' = paths_src w @ [(path, with_entries pathItem (members w))]"
proof (cases "hasOperations w")
  case True
  with assms show ?thesis by (auto simp: finish_path_def Let_def dest!: in_pass_Done)
next
  case False
  with assms show ?thesis by (auto simp: finish_path_def Let_def)
qed

lemma process_path_Done:
  fixes w :: walk
  assumes "process_path h comps cfg rx fuel e w = Done w'"
  shows "plain_doc (paths_src w') = plain_doc (paths_src w @ [item_after rx cfg e])"
proof (cases "case rx of None \<Rightarrow> False | Some test \<Rightarrow> \<not> test (fst e)")
  case True
  with assms show ?thesis by (auto simp: process_path_def item_after_def Let_def)
next
  case False
  define w0 where "w0 = w\<lparr>pass := alloc (pass w), filteredPathItem := [], hasOperations := False, members := []\<rparr>"
  from assms False have nn: "snd e \<noteq> JNull" by (auto simp: process_path_def Let_def split: if_splits)
  with assms False have "steps [in_pass (path_parameters h comps fuel (snd e)),
                  each (process_operation h comps cfg fuel) (entries (snd e)),
                  finish_path h comps fuel (fresh (pass w)) (fst e) (snd e)] w0 = Done w'"
    by (simp add: process_path_def Let_def w0_def)
  then obtain w1 w2 :: walk where
    1: "in_pass (path_parameters h comps fuel (snd e)) w0 = Done w1" and
    2: "each (process_operation h comps cfg fuel) (entries (snd e)) w1 = Done w2" and
    3: "finish_path h comps fuel (fresh (pass w)) (fst e) (snd e) w2 = Done w'"
    by (auto dest!: andthen_Done)
  from in_pass_Done [OF 1] have w1: "paths_src w1 = paths_src w" "members w1 = []"
    by (auto simp: w0_def)
  from each_process_operation_Done [OF 2] w1 have
    w2: "paths_src w2 = paths_src w" "plain_doc (members w2) = plain_doc (map (operation_after cfg) (entries (snd e)))"
    by simp_all
  from finish_path_Done [OF 3] w2 have
    "paths_src w' = paths_src w @ [(fst e, with_entries (snd e) (members w2))]" by simp
  moreover have "item_after rx cfg e = (fst e, with_entries (snd e) (map (operation_after cfg) (entries (snd e))))"
    using False by (simp add: item_after_def)
  ultimately show ?thesis using plain_with_entries [OF w2(2), of "snd e"]
    by (simp add: plain_doc_def)
qed

lemma each_process_path_Done:
  fixes w :: walk
  shows "each (process_path h comps cfg rx fuel) es w = Done w' \<Longrightarrow>
   plain_doc (paths_src w') = plain_doc (paths_src w @ map (item_after rx cfg) es)"
proof (induction es arbitrary: w)
  case Nil
  then show ?case by simp
next
  case (Cons e es)
  from each_Cons_Done [OF Cons.prems] obtain w1 where
    1: "process_path h comps cfg rx fuel e w = Done w1" and 2: "each (process_path h comps cfg rx fuel) es w1 = Done w'"
    by blast
  from process_path_Done [OF 1] Cons.IH [OF 2] show ?case
    by (simp add: plain_doc_append)
qed

lemma resolve_all_Done:
  fixes w :: walk
  assumes "resolve_all h comps cfg rx fuel spec w = Done w'"
  shows "plain_doc (paths_src w') = plain_doc (paths_src w @ map (item_after rx cfg) (path_entries spec))"
proof -
  from assms obtain w1 w2 w3 :: walk where
    1: "each (process_path h comps cfg rx fuel) (path_entries spec) w = Done w1" and
    2: "in_pass (root_security h comps fuel (map_of (deep_copy spec) ''security'')) w1 = Done w2" and
    3: "in_pass (each (force_error h comps fuel) ERROR_NAMES) w2 = Done w3" and
    4: "in_pass (resolve h comps fuel fuel) w3 = Done w'"
    unfolding resolve_all_def by (auto dest!: andthen_Done)
  from in_pass_Done [OF 2] in_pass_Done [OF 3] in_pass_Done [OF 4] have "paths_src w' = paths_src w1"
    by auto
  with each_process_path_Done [OF 1] show ?thesis by simp
qed

lemma plain_doc_source_after:
  "plain_doc es = plain_doc es' \<Longrightarrow> plain_doc (source_after spec es) = plain_doc (source_after spec es')"
  using plain_with_entries [of es es']
  by (cases "map_of spec ''paths''") (auto simp: source_after_def plain_doc_update)


lemma input_of_Some: "input_of x = Some d \<Longrightarrow> \<exists>r. x = Returned r \<and> input_after r = d"
  by (cases x) auto

lemma paths_src_start: "paths_src (start cfg spec) = []"
  by (simp add: start_def)

text \<open>
  Claim C3, as the code has it. Whenever the pass returns, the input it leaves behind is
  the input it was given with the \<open>parameters\<close> of every surviving operation replaced
  by the deduplicated array (equal up to the addresses of the cells, the new arrays being
  new cells), and every top-level field other than \<open>paths\<close> is the very value it was.
\<close>

theorem input_changed_only_in_parameters:
  assumes "input_of (filterOpenAPI h fuel spec cfg) = Some d" and "pathRegex h cfg = Some rx"
  shows "plain_doc d = plain_doc (expected_input rx cfg spec) \<and> (k \<noteq> ''paths'' \<longrightarrow> map_of d k = map_of spec k)"
proof -
  from input_of_Some [OF assms(1)] obtain r where r: "filterOpenAPI h fuel spec cfg = Returned r" "input_after r = d"
    by blast
  from filterOpenAPI_Returned [OF r(1)] assms(2) obtain w :: walk where
    w: "resolve_all h (map_of spec ''components'') cfg rx fuel spec (start cfg spec) = Done w"
    and i: "input_after r = source_after spec (paths_src w)" by auto
  from resolve_all_Done [OF w] have "plain_doc (paths_src w) = plain_doc (map (item_after rx cfg) (path_entries spec))"
    by (simp add: paths_src_start)
  from plain_doc_source_after [OF this, of spec] have "plain_doc d = plain_doc (expected_input rx cfg spec)"
    using i r(2) by (simp add: expected_input_def)
  moreover have "k \<noteq> ''paths'' \<longrightarrow> map_of d k = map_of spec k"
    using i r(2) by (auto simp: map_of_source_after)
  ultimately show ?thesis by blast
qed


text \<open>The operation with the parameters query a, header a, query a.\<close>

theorem input_changed_only_in_parameters_witness:
  "input_of (filterOpenAPI offline 20 doc_params by_user) = Some params_after \<and>
   pathRegex offline by_user = Some None \<and>
   plain_doc params_after = plain_doc (expected_input None by_user doc_params) \<and>
   map_of params_after ''info'' = map_of doc_params ''info''"
proof -
  have 1: "input_of (filterOpenAPI offline 20 doc_params by_user) = Some params_after" by code_simp
  have 2: "pathRegex offline by_user = Some None" by (simp add: pathRegex_def by_user_def)
  from input_changed_only_in_parameters [OF 1 2, of "''info''"] 1 2 show ?thesis by simp
qed

text \<open>
  As claim C3 states it, no field of the input is modified. The assignment
  \<open>operation.parameters = uniqueParams\<close> is made on the operation of \<open>spec\<close> itself:
  after the pass the input's operation has lost its third parameter.
\<close>

theorem input_modified_counterexample:
  "map_option plain_doc (input_of (filterOpenAPI offline 20 doc_params by_user)) \<noteq> Some (plain_doc doc_params)"
  by code_simp

section \<open>Reasoning about outcomes\<close>

lemma after_simps [simp]:
  "after t x Q (Done s) = Q s"
  "after t x Q (Threw s) = (t \<and> Q s)"
  "after t x Q OutOfFuel = x"
  by (simp_all add: after_def)

lemma after_mono: "after t x P m \<Longrightarrow> (\<And>s. P s \<Longrightarrow> Q s) \<Longrightarrow> after t x Q m"
  by (cases m) auto

lemma after_weaken: "after t x P m \<Longrightarrow> after True True P m"
  by (cases m) auto

lemma after_throwing: "after t x P m \<Longrightarrow> after True x P m"
  by (cases m) auto

lemma after_conj: "after t x P m \<Longrightarrow> after True True Q m \<Longrightarrow> after t x (\<lambda>s. P s \<and> Q s) m"
  by (cases m) auto

lemma after_andthen:
  "after t x Q m \<Longrightarrow> (\<And>s. Q s \<Longrightarrow> after t x Q (f s)) \<Longrightarrow> after t x Q (andthen m f)"
  by (cases m) (auto simp: andthen_def)

lemma after_each:
  "(\<And>e s. e \<in> set es \<Longrightarrow> Q s \<Longrightarrow> after t x Q (f e s)) \<Longrightarrow> Q s \<Longrightarrow> after t x Q (each f es s)"
proof (induction es arbitrary: s)
  case Nil
  then show ?case by simp
next
  case (Cons e es)
  show ?case unfolding each.simps
  proof (rule after_andthen)
    show "after t x Q (f e s)" using Cons.prems by simp
  next
    fix s' assume "Q s'"
    then show "after t x Q (each f es s')" using Cons.prems(1) by (intro Cons.IH) auto
  qed
qed

lemma after_steps:
  "(\<And>f s. f \<in> set fs \<Longrightarrow> Q s \<Longrightarrow> after t x Q (f s)) \<Longrightarrow> Q s \<Longrightarrow> after t x Q (steps fs s)"
proof (induction fs arbitrary: s)
  case Nil
  then show ?case by simp
next
  case (Cons f fs)
  show ?case unfolding steps.simps
  proof (rule after_andthen)
    show "after t x Q (f s)" using Cons.prems by simp
  next
    fix s' assume "Q s'"
    then show "after t x Q (steps fs s')" using Cons.prems(1) by (intro Cons.IH) auto
  qed
qed

lemma after_visit:
  "(\<And>v. c = Some v \<Longrightarrow> truthy v \<Longrightarrow> after t x Q (rec v s)) \<Longrightarrow> Q s \<Longrightarrow> after t x Q (visit rec c s)"
  by (cases c) auto

lemma after_caught:
  "after t' x Q m \<Longrightarrow> (\<And>s. Q s \<Longrightarrow> Q (warn r s)) \<Longrightarrow> after t x Q (caught r m)"
  by (cases m) (auto simp: caught_def)

lemma recursesD: "recurses t x I ok rec \<Longrightarrow> I s \<Longrightarrow> ok v \<Longrightarrow> after t x I (rec v s)"
  by (simp add: recurses_def)

lemma hereditaryD: "hereditary ok \<Longrightarrow> ok v \<Longrightarrow> w \<in> set (vals v) \<Longrightarrow> ok w"
  by (auto simp: hereditary_def)

lemma get_in_vals: "get v k = Some w \<Longrightarrow> w \<in> set (vals v)"
  unfolding get_def vals_def by (auto dest: map_of_SomeD intro: rev_image_eqI)

lemma vals_JArr [simp]: "vals (JArr l xs) = xs"
  by (simp add: vals_def)

lemma vals_JObj [simp]: "vals (JObj l kvs) = map snd kvs"
  by (simp add: vals_def)

section \<open>The scan of one node\<close>

lemma trackComponent_after:
  assumes RR: "recurses t x I ok rec"
    and U: "\<And>s. I s \<Longrightarrow> I (use ty name s)"
    and C: "\<And>c. component comps ty name = Some (Some c) \<Longrightarrow> ok c"
    and P: "t \<or> component comps ty name \<noteq> None"
    and "I s"
  shows "after t x I (trackComponent comps rec ty name s)"
proof (cases "has (usedComponents s ty) name")
  case True
  with \<open>I s\<close> show ?thesis by (simp add: trackComponent_def)
next
  case False
  show ?thesis
  proof (cases "component comps ty name")
    case None
    with False P U [OF \<open>I s\<close>] show ?thesis by (simp add: trackComponent_def)
  next
    case (Some c)
    have "after t x I (visit rec c (use ty name s))"
      using U [OF \<open>I s\<close>] C Some by (intro after_visit recursesD [OF RR]) auto
    with False Some show ?thesis by (simp add: trackComponent_def)
  qed
qed

lemma handle_ref_after:
  assumes T: "\<And>ty n s. I s \<Longrightarrow> ty \<in> set COMPONENT_TYPES \<Longrightarrow> after True x I (trackComponent comps rec ty n s)"
    and W: "\<And>r s. I s \<Longrightarrow> I (warn r s)"
    and P: "t \<or> prints (get obj ''$ref'')"
    and "I s"
  shows "after t x I (handle_ref h comps rec obj s)"
proof (cases "get obj ''$ref''")
  case None
  with \<open>I s\<close> show ?thesis by (simp add: handle_ref_def)
next
  case (Some r)
  show ?thesis
  proof (cases "truthy r")
    case False
    with Some \<open>I s\<close> show ?thesis by (simp add: handle_ref_def)
  next
    case True
    show ?thesis
    proof (cases "to_str r")
      case None
      with Some True P \<open>I s\<close> show ?thesis by (simp add: handle_ref_def prints_def)
    next
      case (Some str)
      note str = Some
      show ?thesis
      proof (cases "new_URL h str")
        case None
        with \<open>get obj ''$ref'' = Some r\<close> True str W [OF \<open>I s\<close>] show ?thesis by (simp add: handle_ref_def)
      next
        case (Some u)
        have c: "ty \<in> set COMPONENT_TYPES \<Longrightarrow> after t x I (caught str (trackComponent comps rec ty n s))" for ty n
          using T [OF \<open>I s\<close>] W by (intro after_caught) auto
        from \<open>get obj ''$ref'' = Some r\<close> True str Some \<open>I s\<close> c show ?thesis
          by (simp add: handle_ref_def split: option.splits)
      qed
    qed
  qed
qed

lemma handle_composition_after:
  assumes RR: "recurses t x I ok rec"
    and HH: "hereditary ok"
    and "ok obj" "I s"
  shows "after t x I (handle_composition rec obj s)"
  unfolding handle_composition_def
proof (rule after_each [where Q = I])
  fix name s assume "I s"
  show "after t x I (case get obj name of Some (JArr l xs) \<Rightarrow> each rec xs s | _ \<Rightarrow> Done s)"
  proof (cases "get obj name")
    case None
    with \<open>I s\<close> show ?thesis by simp
  next
    case (Some p)
    from hereditaryD [OF HH \<open>ok obj\<close> get_in_vals [OF Some]] have "ok p" .
    show ?thesis
    proof (cases p)
      case (JArr l xs)
      have "after t x I (each rec xs s)"
        using hereditaryD [OF HH \<open>ok p\<close>] JArr by (intro after_each [where Q = I] recursesD [OF RR]) (auto intro: \<open>I s\<close>)
      with Some JArr show ?thesis by simp
    qed (use Some \<open>I s\<close> in simp_all)
  qed
qed fact

lemma handle_properties_after:
  assumes RR: "recurses t x I ok rec"
    and HH: "hereditary ok"
    and "ok obj" "I s"
  shows "after t x I (handle_properties rec obj s)"
proof (cases "get obj ''properties''")
  case None
  with \<open>I s\<close> show ?thesis by (simp add: handle_properties_def)
next
  case (Some p)
  from hereditaryD [OF HH \<open>ok obj\<close> get_in_vals [OF Some]] have "ok p" .
  have "after t x I (each rec (vals p) s)"
    using hereditaryD [OF HH \<open>ok p\<close>] by (intro after_each [where Q = I] recursesD [OF RR]) (auto intro: \<open>I s\<close>)
  with Some \<open>I s\<close> show ?thesis by (simp add: handle_properties_def)
qed

lemma visit_get_after:
  assumes RR: "recurses t x I ok rec"
    and HH: "hereditary ok"
    and "ok obj" "I s"
  shows "after t x I (visit rec (get obj k) s)"
proof (rule after_visit)
  fix v assume "get obj k = Some v"
  from hereditaryD [OF HH \<open>ok obj\<close> get_in_vals [OF this]] have "ok v" .
  from recursesD [OF RR \<open>I s\<close> this] show "after t x I (rec v s)" .
qed fact

lemma handle_parameter_after:
  assumes RR: "recurses t x I ok rec"
    and HH: "hereditary ok"
    and "ok param" "I s" "t \<or> param \<noteq> JNull"
  shows "after t x I (handle_parameter rec param s)"
proof (cases "param = JNull")
  case True
  with assms show ?thesis by (simp add: handle_parameter_def)
next
  case False
  have "after t x I (steps [(\<lambda>st. if truthy_opt (get param ''$ref'') then rec param st else Done st),
                  visit rec (get param ''schema'')] s)"
  proof (rule after_steps [where Q = I])
    fix f s assume f: "f \<in> set [(\<lambda>st. if truthy_opt (get param ''$ref'') then rec param st else Done st),
                  visit rec (get param ''schema'')]" and "I s"
    then consider "f = (\<lambda>st. if truthy_opt (get param ''$ref'') then rec param st else Done st)"
      | "f = visit rec (get param ''schema'')" by auto
    then show "after t x I (f s)"
    proof cases
      case 1
      then show ?thesis using recursesD [OF RR \<open>I s\<close> \<open>ok param\<close>] \<open>I s\<close> by simp
    next
      case 2
      then show ?thesis using visit_get_after [OF RR HH \<open>ok param\<close> \<open>I s\<close>] by simp
    qed
  qed fact
  with False show ?thesis by (simp add: handle_parameter_def)
qed

lemma handle_parameters_after:
  assumes RR: "recurses t x I ok rec"
    and HH: "hereditary ok"
    and "ok obj" "I s" "t \<or> shaped obj"
  shows "after t x I (handle_parameters rec obj s)"
proof (cases "get obj ''parameters''")
  case None
  with \<open>I s\<close> show ?thesis by (simp add: handle_parameters_def)
next
  case (Some p)
  from hereditaryD [OF HH \<open>ok obj\<close> get_in_vals [OF Some]] have "ok p" .
  show ?thesis
  proof (cases "truthy p")
    case False
    with Some \<open>I s\<close> show ?thesis by (simp add: handle_parameters_def)
  next
    case True
    show ?thesis
    proof (cases p)
      case (JArr l ps)
      have "after t x I (each (handle_parameter rec) ps s)"
      proof (rule after_each [where Q = I])
        fix e s assume e: "e \<in> set ps" and "I s"
        have "t \<or> e \<noteq> JNull" using assms(5) Some True JArr e by (auto simp: shaped_def)
        moreover have "ok e" using hereditaryD [OF HH \<open>ok p\<close>] JArr e by simp
        ultimately show "after t x I (handle_parameter rec e s)"
          using \<open>I s\<close> by (intro handle_parameter_after [OF RR HH]) auto
      qed fact
      with Some True JArr show ?thesis by (simp add: handle_parameters_def)
    qed (use Some True assms(4,5) in \<open>auto simp: handle_parameters_def shaped_def\<close>)
  qed
qed

lemma handle_content_after:
  assumes RR: "recurses t x I ok rec"
    and HH: "hereditary ok"
    and "ok obj" "I s" "t \<or> shaped obj"
  shows "after t x I (handle_content rec obj s)"
proof (cases "get obj ''content''")
  case None
  with \<open>I s\<close> show ?thesis by (simp add: handle_content_def)
next
  case (Some c)
  from hereditaryD [OF HH \<open>ok obj\<close> get_in_vals [OF Some]] have "ok c" .
  show ?thesis
  proof (cases "truthy c")
    case False
    with Some \<open>I s\<close> show ?thesis by (simp add: handle_content_def)
  next
    case True
    have "after t x I (each (\<lambda>m st. if m = JNull then Threw st else visit rec (get m ''schema'') st) (vals c) s)"
    proof (rule after_each [where Q = I])
      fix e s assume e: "e \<in> set (vals c)" and "I s"
      have "t \<or> e \<noteq> JNull" using assms(5) Some True e by (auto simp: shaped_def)
      moreover have "ok e" using hereditaryD [OF HH \<open>ok c\<close> e] .
      ultimately show "after t x I (if e = JNull then Threw s else visit rec (get e ''schema'') s)"
        using \<open>I s\<close> visit_get_after [OF RR HH \<open>ok e\<close> \<open>I s\<close>] by auto
    qed fact
    with Some True show ?thesis by (simp add: handle_content_def)
  qed
qed

lemma foldl_use_invariant:
  "I s \<Longrightarrow> (\<And>k s. I s \<Longrightarrow> I (use ty (Some (JStr k)) s)) \<Longrightarrow>
   I (foldl (\<lambda>st k. use ty (Some (JStr k)) st) s ks)"
  by (induction ks arbitrary: s) auto

lemma handle_security_after:
  assumes S: "\<And>k s. I s \<Longrightarrow> I (use ''securitySchemes'' (Some (JStr k)) s)"
    and "I s" "t \<or> shaped obj"
  shows "after t x I (handle_security obj s)"
proof (cases "get obj ''security''")
  case None
  with \<open>I s\<close> show ?thesis by (simp add: handle_security_def)
next
  case (Some v)
  show ?thesis
  proof (cases "truthy v")
    case False
    with Some \<open>I s\<close> show ?thesis by (simp add: handle_security_def)
  next
    case True
    show ?thesis
    proof (cases v)
      case (JArr l reqs)
      with Some True foldl_use_invariant [of I s "''securitySchemes''", OF \<open>I s\<close> S] show ?thesis
        by (simp add: handle_security_def)
    qed (use Some True assms(2,3) in \<open>auto simp: handle_security_def shaped_def\<close>)
  qed
qed

lemma handle_dto_after:
  assumes T: "\<And>d s. I s \<Longrightarrow> get obj ''x-responseDTO'' = Some d \<Longrightarrow> truthy d \<Longrightarrow>
        after t x I (trackComponent comps rec ''schemas'' (Some d) s)"
    and "I s"
  shows "after t x I (handle_dto comps rec obj s)"
  using assms by (cases "get obj ''x-responseDTO''") (auto simp: handle_dto_def)

lemma handle_rest_after:
  assumes RR: "recurses t x I ok rec"
    and HH: "hereditary ok"
    and "ok obj" "I s"
  shows "after t x I (handle_rest rec obj s)"
  unfolding handle_rest_def
proof (rule after_each [where Q = I])
  fix v s assume v: "v \<in> set (vals obj)" and "I s"
  from hereditaryD [OF HH \<open>ok obj\<close> v] have "ok v" .
  show "after t x I (case v of JArr l xs \<Rightarrow> each rec xs s | JObj l kvs \<Rightarrow> rec v s | JNull \<Rightarrow> rec v s | _ \<Rightarrow> Done s)"
  proof (cases v)
    case (JArr l xs)
    have "after t x I (each rec xs s)"
      using hereditaryD [OF HH \<open>ok v\<close>] JArr by (intro after_each [where Q = I] recursesD [OF RR]) (auto intro: \<open>I s\<close>)
    with JArr show ?thesis by simp
  qed (use recursesD [OF RR \<open>I s\<close> \<open>ok v\<close>] \<open>I s\<close> in simp_all)
qed fact

lemma scan_after:
  assumes RR: "recurses t x I ok rec"
    and T1: "\<And>ty n s. I s \<Longrightarrow> ty \<in> set COMPONENT_TYPES \<Longrightarrow> after True x I (trackComponent comps rec ty n s)"
    and T2: "\<And>d s. I s \<Longrightarrow> get obj ''x-responseDTO'' = Some d \<Longrightarrow> truthy d \<Longrightarrow>
        after t x I (trackComponent comps rec ''schemas'' (Some d) s)"
    and S: "\<And>k s. I s \<Longrightarrow> I (use ''securitySchemes'' (Some (JStr k)) s)"
    and W: "\<And>r s. I s \<Longrightarrow> I (warn r s)"
    and HH: "hereditary ok"
    and "ok obj" "I s" "t \<or> shaped obj"
  shows "after t x I (scan h comps rec obj s)"
  unfolding scan_def
proof (rule after_steps [where Q = I])
  fix f s
  assume f: "f \<in> set [handle_ref h comps rec obj, handle_composition rec obj, handle_properties rec obj,
            visit rec (get obj ''items''), visit rec (get obj ''additionalProperties''),
            handle_parameters rec obj, handle_content rec obj, handle_security obj,
            handle_dto comps rec obj, handle_rest rec obj]" and "I s"
  have p: "t \<or> prints (get obj ''$ref'')" using assms(9) by (auto simp: shaped_def)
  note facts =
    handle_ref_after [of I x comps rec t obj s h, OF T1 W p \<open>I s\<close>]
    handle_composition_after [OF RR HH \<open>ok obj\<close> \<open>I s\<close>]
    handle_properties_after [OF RR HH \<open>ok obj\<close> \<open>I s\<close>]
    visit_get_after [OF RR HH \<open>ok obj\<close> \<open>I s\<close>]
    handle_parameters_after [OF RR HH \<open>ok obj\<close> \<open>I s\<close> assms(9)]
    handle_content_after [OF RR HH \<open>ok obj\<close> \<open>I s\<close> assms(9)]
    handle_security_after [of I s t obj x, OF S \<open>I s\<close> assms(9)]
    handle_dto_after [of I obj t x comps rec s, OF T2 \<open>I s\<close>]
    handle_rest_after [OF RR HH \<open>ok obj\<close> \<open>I s\<close>]
  from f show "after t x I (f s)" using facts by auto
qed fact


section \<open>The recursion\<close>

lemma seenObjects_use [simp]: "seenObjects (use ty n s) = seenObjects s"
  by (simp add: use_def)

lemma seenObjects_warn [simp]: "seenObjects (warn r s) = seenObjects s"
  by (simp add: warn_def)

lemma unvisited_address: "unvisited v s \<Longrightarrow> \<exists>a. address v = Some a \<and> a \<notin> set (seenObjects s)"
  by (cases "address v") (auto simp: unvisited_def)

lemma seenObjects_mark: "address v = Some a \<Longrightarrow> seenObjects (mark v s) = seenObjects s @ [a]"
  by (simp add: mark_def)

lemma component_None: "component comps ty name = None \<Longrightarrow> to_str_opt name = None"
  by (auto simp: component_def split: option.splits if_splits)

lemma card_less_marked:
  assumes "finite L" "a \<in> L" "a \<notin> S" "card (L - S) \<le> Suc n" "insert a S \<subseteq> S'"
  shows "card (L - S') \<le> n"
proof -
  have "L - S' \<subseteq> (L - S) - {a}" using assms(5) by auto
  then have "card (L - S') \<le> card ((L - S) - {a})" using assms(1) by (intro card_mono) auto
  also have "\<dots> = card (L - S) - 1" using assms(1,2,3) by (subst card_Diff_singleton) auto
  finally show ?thesis using assms(4) by simp
qed

lemma collectReferences_after:
  fixes L :: "nat set" and I :: "state \<Rightarrow> bool"
  assumes U: "\<And>ty n s. I s \<Longrightarrow> I (use ty n s)"
    and W: "\<And>r s. I s \<Longrightarrow> I (warn r s)"
    and M: "\<And>v s. I s \<Longrightarrow> ok v \<Longrightarrow> unvisited v s \<Longrightarrow> I (mark v s)"
    and HH: "hereditary ok"
    and C: "\<And>ty n c. component comps ty n = Some (Some c) \<Longrightarrow> ok c"
    and SH: "\<And>v. ok v \<Longrightarrow> t \<or> shaped v"
    and B1: "x \<or> finite L"
    and B2: "\<And>v a. ok v \<Longrightarrow> address v = Some a \<Longrightarrow> x \<or> a \<in> L"
  shows "I s \<Longrightarrow> ok v \<Longrightarrow> x \<or> card (L - set (seenObjects s)) \<le> n \<Longrightarrow>
    after t x (\<lambda>s'. I s' \<and> set (seenObjects s) \<subseteq> set (seenObjects s')) (collectReferences h comps n v s)"
proof (induction n arbitrary: v s)
  case 0
  show ?case
  proof (cases "unvisited v s")
    case False
    with 0 show ?thesis by simp
  next
    case True
    from unvisited_address [OF True] obtain a where a: "address v = Some a" "a \<notin> set (seenObjects s)" by blast
    have x
    proof (rule ccontr)
      assume "\<not> x"
      with B1 B2 [OF \<open>ok v\<close> a(1)] 0(3) have "finite L" "a \<in> L" "card (L - set (seenObjects s)) = 0" by auto
      then show False using a(2) by auto
    qed
    with True show ?thesis by simp
  qed
next
  case (Suc n)
  show ?case
  proof (cases "unvisited v s")
    case False
    with Suc.prems show ?thesis by simp
  next
    case True
    from unvisited_address [OF True] obtain a where a: "address v = Some a" "a \<notin> set (seenObjects s)" by blast
    define s1 where "s1 = mark v s"
    define Ia where "Ia = (\<lambda>s'. I s' \<and> set (seenObjects s1) \<subseteq> set (seenObjects s'))"
    have s1: "seenObjects s1 = seenObjects s @ [a]" unfolding s1_def by (rule seenObjects_mark [OF a(1)])
    have "I s1" unfolding s1_def using Suc.prems True by (intro M)
    then have "Ia s1" by (simp add: Ia_def)
    have bound: "x \<or> card (L - set (seenObjects s')) \<le> n" if "Ia s'" for s'
    proof (cases x)
      case False
      with B1 B2 [OF \<open>ok v\<close> a(1)] Suc.prems(3) have f: "finite L" "a \<in> L" "card (L - set (seenObjects s)) \<le> Suc n"
        by auto
      have g: "insert a (set (seenObjects s)) \<subseteq> set (seenObjects s')" using that s1 by (auto simp: Ia_def)
      have "card (L - set (seenObjects s')) \<le> n"
        by (rule card_less_marked [OF f(1) f(2) a(2) f(3) g])
      then show ?thesis by simp
    qed simp
    have RR: "recurses t x Ia ok (collectReferences h comps n)"
      unfolding recurses_def
    proof (intro allI impI)
      fix v' s' assume "Ia s'" "ok v'"
      then have "I s'" by (simp add: Ia_def)
      from Suc.IH [OF this \<open>ok v'\<close> bound [OF \<open>Ia s'\<close>]]
      show "after t x Ia (collectReferences h comps n v' s')"
      proof (rule after_mono)
        fix s'' assume "I s'' \<and> set (seenObjects s') \<subseteq> set (seenObjects s'')"
        with \<open>Ia s'\<close> show "Ia s''" by (auto simp: Ia_def)
      qed
    qed
    have RT: "recurses True x Ia ok (collectReferences h comps n)"
      unfolding recurses_def
    proof (intro allI impI)
      fix v' s' assume "Ia s'" "ok v'"
      from recursesD [OF RR this] show "after True x Ia (collectReferences h comps n v' s')"
        by (rule after_throwing)
    qed
    have Ua: "Ia (use ty m s')" if "Ia s'" for ty m s' using that U by (simp add: Ia_def)
    have Wa: "Ia (warn r s')" if "Ia s'" for r s' using that W by (simp add: Ia_def)
    have "after t x Ia (scan h comps (collectReferences h comps n) v s1)"
    proof (rule scan_after [where ok = ok, OF RR])
      fix ty m s' assume "Ia s'"
      show "after True x Ia (trackComponent comps (collectReferences h comps n) ty m s')"
      proof (rule trackComponent_after [where ok = ok, OF RT])
        show "Ia (use ty m s)" if "Ia s" for s using that by (rule Ua)
        show "ok c" if "component comps ty m = Some (Some c)" for c using that by (rule C)
      qed (simp_all add: \<open>Ia s'\<close>)
    next
      fix d s' assume "Ia s'" and d: "get v ''x-responseDTO'' = Some d" "truthy d"
      have p: "t \<or> component comps ''schemas'' (Some d) \<noteq> None"
      proof (cases "to_str d")
        case None
        with SH [OF \<open>ok v\<close>] d show ?thesis by (simp add: shaped_def prints_def)
      next
        case (Some str)
        then show ?thesis using component_None [of comps "''schemas''" "Some d"] by auto
      qed
      show "after t x Ia (trackComponent comps (collectReferences h comps n) ''schemas'' (Some d) s')"
      proof (rule trackComponent_after [where ok = ok, OF RR])
        show "Ia (use ''schemas'' (Some d) s)" if "Ia s" for s using that by (rule Ua)
        show "ok c" if "component comps ''schemas'' (Some d) = Some (Some c)" for c using that by (rule C)
      qed (use p \<open>Ia s'\<close> in simp_all)
    next
      show "Ia (use ''securitySchemes'' (Some (JStr k)) s)" if "Ia s" for k s using that by (rule Ua)
      show "Ia (warn r s)" if "Ia s" for r s using that by (rule Wa)
      show "hereditary ok" by (rule HH)
      show "ok v" by fact
      show "Ia s1" by fact
      show "t \<or> shaped v" using SH [OF \<open>ok v\<close>] .
    qed
    then have "after t x (\<lambda>s'. I s' \<and> set (seenObjects s) \<subseteq> set (seenObjects s'))
        (scan h comps (collectReferences h comps n) v s1)"
      by (rule after_mono) (auto simp: Ia_def s1)
    with True show ?thesis by (simp add: s1_def)
  qed
qed

section \<open>Invariants of the whole pass\<close>

lemma in_pass_after:
  fixes w :: walk
  shows "after t x I (f (pass w)) \<Longrightarrow> after t x (\<lambda>w'. I (pass w')) (in_pass f w)"
  by (cases "f (pass w)") (auto simp: in_pass_def)

lemma process_operation_keeps:
  fixes w :: walk
  assumes CR: "\<And>v s. I s \<Longrightarrow> after True True I (collectReferences h comps fuel v s)"
    and AL: "\<And>s. I s \<Longrightarrow> I (alloc s)"
    and UT: "\<And>s ts. I s \<Longrightarrow> I (s\<lparr>usedTags := ts\<rparr>)"
    and "I (pass w)"
  shows "after True True (\<lambda>w'. I (pass w')) (process_operation h comps cfg fuel e w)"
proof (cases "fst e \<in> set METHODS")
  case False
  with \<open>I (pass w)\<close> show ?thesis by (simp add: process_operation_def keep_def Let_def)
next
  case True
  note m = True
  show ?thesis
  proof (cases "snd e = JNull")
    case True
    with m \<open>I (pass w)\<close> show ?thesis by (simp add: process_operation_def Let_def)
  next
    case False
    note nn = False
    show ?thesis
    proof (cases "operationTags (snd e)")
      case None
      with m nn \<open>I (pass w)\<close> show ?thesis by (simp add: process_operation_def Let_def)
    next
      case (Some ts)
      show ?thesis
      proof (cases "shouldInclude cfg ts")
        case False
        with m nn Some \<open>I (pass w)\<close> show ?thesis by (simp add: process_operation_def keep_def Let_def)
      next
        case True
        show ?thesis
        proof (cases "deduplicate (fresh (pass w)) (snd e)")
          case None
          with m nn Some True \<open>I (pass w)\<close> show ?thesis by (simp add: process_operation_def Let_def)
        next
          case (Some x)
          define s1 where "s1 = alloc ((pass w)\<lparr>usedTags := foldl (\<lambda>s t. add (Some t) s) (usedTags (pass w)) ts\<rparr>)"
          define w1 where "w1 = keep (fst e) x
                            (w\<lparr>pass := s1,
                               filteredPathItem := assign (fst e) x (filteredPathItem w),
                               hasOperations := True\<rparr>)"
          have "I s1" unfolding s1_def by (intro AL UT \<open>I (pass w)\<close>)
          then have "I (pass w1)" by (simp add: w1_def keep_def)
          from CR [OF this] have "after True True (\<lambda>w'. I (pass w')) (in_pass (collectReferences h comps fuel x) w1)"
            by (rule in_pass_after)
          with m nn \<open>operationTags (snd e) = Some ts\<close> True Some show ?thesis
            by (simp add: process_operation_def Let_def w1_def s1_def)
        qed
      qed
    qed
  qed
qed

lemma path_parameters_keeps:
  assumes CR: "\<And>v s. I s \<Longrightarrow> after True True I (collectReferences h comps fuel v s)"
    and AL: "\<And>s. I s \<Longrightarrow> I (alloc s)"
    and "I s"
  shows "after True True I (path_parameters h comps fuel pathItem s)"
proof (cases "get pathItem ''parameters''")
  case None
  with \<open>I s\<close> show ?thesis by (simp add: path_parameters_def)
next
  case (Some p)
  with \<open>I s\<close> CR [OF AL [OF \<open>I s\<close>]] show ?thesis by (simp add: path_parameters_def)
qed

lemma finish_path_keeps:
  fixes w :: walk
  assumes CR: "\<And>v s. I s \<Longrightarrow> after True True I (collectReferences h comps fuel v s)"
    and "I (pass w)"
  shows "after True True (\<lambda>w'. I (pass w')) (finish_path h comps fuel a path pathItem w)"
proof (cases "hasOperations w")
  case False
  with \<open>I (pass w)\<close> show ?thesis by (simp add: finish_path_def Let_def)
next
  case True
  define w1 where "w1 = w\<lparr>paths_src := paths_src w @ [(path, with_entries pathItem (members w))],
      paths_out := assign path (JObj a (filteredPathItem w)) (paths_out w)\<rparr>"
  have "I (pass w1)" using \<open>I (pass w)\<close> by (simp add: w1_def)
  from CR [OF this] have "after True True (\<lambda>w'. I (pass w'))
      (in_pass (collectReferences h comps fuel (with_entries pathItem (members w))) w1)"
    by (rule in_pass_after)
  with True show ?thesis by (simp add: finish_path_def Let_def w1_def)
qed

lemma process_path_keeps:
  fixes w :: walk
  assumes CR: "\<And>v s. I s \<Longrightarrow> after True True I (collectReferences h comps fuel v s)"
    and AL: "\<And>s. I s \<Longrightarrow> I (alloc s)"
    and UT: "\<And>s ts. I s \<Longrightarrow> I (s\<lparr>usedTags := ts\<rparr>)"
    and "I (pass w)"
  shows "after True True (\<lambda>w'. I (pass w')) (process_path h comps cfg rx fuel e w)"
proof (cases "case rx of None \<Rightarrow> False | Some test \<Rightarrow> \<not> test (fst e)")
  case True
  with \<open>I (pass w)\<close> show ?thesis by (simp add: process_path_def Let_def)
next
  case False
  note go = False
  show ?thesis
  proof (cases "snd e = JNull")
    case True
    with go \<open>I (pass w)\<close> show ?thesis by (simp add: process_path_def Let_def)
  next
    case False
    define w0 where "w0 = w\<lparr>pass := alloc (pass w), filteredPathItem := [], hasOperations := False, members := []\<rparr>"
    have "I (pass w0)" using AL [OF \<open>I (pass w)\<close>] by (simp add: w0_def)
    have "after True True (\<lambda>w'. I (pass w'))
       (steps [in_pass (path_parameters h comps fuel (snd e)),
               each (process_operation h comps cfg fuel) (entries (snd e)),
               finish_path h comps fuel (fresh (pass w)) (fst e) (snd e)] w0)"
    proof (rule after_steps [where Q = "\<lambda>w'. I (pass w')"])
      fix f and w' :: walk
      assume f: "f \<in> set [in_pass (path_parameters h comps fuel (snd e)),
               each (process_operation h comps cfg fuel) (entries (snd e)),
               finish_path h comps fuel (fresh (pass w)) (fst e) (snd e)]" and i: "I (pass w')"
      have 1: "after True True (\<lambda>w'. I (pass w')) (in_pass (path_parameters h comps fuel (snd e)) w')"
        by (rule in_pass_after) (rule path_parameters_keeps [where I = I, OF CR AL i])
      have 2: "after True True (\<lambda>w'. I (pass w')) (each (process_operation h comps cfg fuel) (entries (snd e)) w')"
      proof (rule after_each [where Q = "\<lambda>w'. I (pass w')"])
        fix e' and w'' :: walk assume i': "I (pass w'')"
        show "after True True (\<lambda>w'. I (pass w')) (process_operation h comps cfg fuel e' w'')"
          by (rule process_operation_keeps [where I = I, OF CR AL UT i'])
      qed (rule i)
      have 3: "after True True (\<lambda>w'. I (pass w')) (finish_path h comps fuel (fresh (pass w)) (fst e) (snd e) w')"
        by (rule finish_path_keeps [where I = I, OF CR i])
      from f 1 2 3 show "after True True (\<lambda>w'. I (pass w')) (f w')" by auto
    qed (rule \<open>I (pass w0)\<close>)
    with go False show ?thesis by (simp add: process_path_def Let_def w0_def)
  qed
qed

lemma root_security_keeps:
  assumes CR: "\<And>v s. I s \<Longrightarrow> after True True I (collectReferences h comps fuel v s)"
    and AL: "\<And>s. I s \<Longrightarrow> I (alloc s)"
    and "I s"
  shows "after True True I (root_security h comps fuel security s)"
proof (cases security)
  case None
  with \<open>I s\<close> show ?thesis by (simp add: root_security_def)
next
  case (Some p)
  with \<open>I s\<close> CR [OF AL [OF \<open>I s\<close>]] show ?thesis by (simp add: root_security_def)
qed

lemma force_error_keeps:
  assumes CR: "\<And>v s. I s \<Longrightarrow> after True True I (collectReferences h comps fuel v s)"
    and U: "\<And>s. I s \<Longrightarrow> I (use ''schemas'' (Some (JStr name)) s)"
    and "I s"
  shows "after True True I (force_error h comps fuel name s)"
proof (cases "component comps ''schemas'' (Some (JStr name))")
  case None
  with \<open>I s\<close> show ?thesis by (simp add: force_error_def)
next
  case (Some c)
  show ?thesis
  proof (cases c)
    case None
    with Some \<open>I s\<close> show ?thesis by (simp add: force_error_def)
  next
    case (Some v)
    with \<open>component comps ''schemas'' (Some (JStr name)) = Some c\<close> \<open>I s\<close> CR [OF U [OF \<open>I s\<close>]]
    show ?thesis by (simp add: force_error_def)
  qed
qed

lemma flagged_keeps: "after t x I m \<Longrightarrow> after t x (\<lambda>cs. I (snd cs)) (flagged c ty before m)"
  by (cases m) (auto simp: flagged_def)

lemma resolve_name_keeps:
  assumes CR: "\<And>v s. I s \<Longrightarrow> after True True I (collectReferences h comps fuel v s)"
    and "I (snd cs)"
  shows "after True True (\<lambda>cs. I (snd cs)) (resolve_name h comps fuel ty name cs)"
proof (cases "component comps ty name")
  case None
  with \<open>I (snd cs)\<close> show ?thesis by (simp add: resolve_name_def)
next
  case (Some c)
  have "after True True I (visit (collectReferences h comps fuel) c (snd cs))"
    by (rule after_visit) (use CR \<open>I (snd cs)\<close> in auto)
  from flagged_keeps [OF this] Some \<open>I (snd cs)\<close> show ?thesis by (simp add: resolve_name_def)
qed

lemma resolve_round_keeps:
  assumes CR: "\<And>v s. I s \<Longrightarrow> after True True I (collectReferences h comps fuel v s)"
    and "I s"
  shows "after True True (\<lambda>cs. I (snd cs)) (resolve_round h comps fuel s)"
  unfolding resolve_round_def
proof (rule after_each [where Q = "\<lambda>cs. I (snd cs)"])
  fix ty and cs :: "bool \<times> state" assume i: "I (snd cs)"
  show "after True True (\<lambda>cs. I (snd cs)) (resolve_type h comps fuel ty cs)"
    unfolding resolve_type_def
  proof (rule after_each [where Q = "\<lambda>cs. I (snd cs)"])
    fix name and cs' :: "bool \<times> state" assume i': "I (snd cs')"
    show "after True True (\<lambda>cs. I (snd cs)) (resolve_name h comps fuel ty name cs')"
      by (rule resolve_name_keeps [where I = I, OF CR i'])
  qed (rule i)
qed (simp add: \<open>I s\<close>)

lemma resolve_keeps:
  assumes CR: "\<And>v s. I s \<Longrightarrow> after True True I (collectReferences h comps fuel v s)"
  shows "I s \<Longrightarrow> after True True I (resolve h comps fuel rounds s)"
proof (induction rounds arbitrary: s)
  case 0
  then show ?case by simp
next
  case (Suc rounds)
  from resolve_round_keeps [where I = I, OF CR Suc.prems]
  have r: "after True True (\<lambda>cs. I (snd cs)) (resolve_round h comps fuel s)" .
  show ?case
  proof (cases "resolve_round h comps fuel s")
    case (Done cs)
    with r have "I (snd cs)" by simp
    with Done Suc.IH [OF this] show ?thesis by simp
  next
    case (Threw cs)
    with r show ?thesis by simp
  next
    case OutOfFuel
    then show ?thesis by simp
  qed
qed

lemma resolve_all_keeps:
  fixes w :: walk
  assumes CR: "\<And>v s. I s \<Longrightarrow> after True True I (collectReferences h comps fuel v s)"
    and AL: "\<And>s. I s \<Longrightarrow> I (alloc s)"
    and UT: "\<And>s ts. I s \<Longrightarrow> I (s\<lparr>usedTags := ts\<rparr>)"
    and FE: "\<And>name s. I s \<Longrightarrow> after True True I (force_error h comps fuel name s)"
    and "I (pass w)"
  shows "after True True (\<lambda>w'. I (pass w')) (resolve_all h comps cfg rx fuel spec w)"
  unfolding resolve_all_def
proof (rule after_steps [where Q = "\<lambda>w'. I (pass w')"])
  fix f and w' :: walk
  assume f: "f \<in> set [each (process_path h comps cfg rx fuel) (path_entries spec),
            in_pass (root_security h comps fuel (map_of (deep_copy spec) ''security'')),
            in_pass (each (force_error h comps fuel) ERROR_NAMES),
            in_pass (resolve h comps fuel fuel)]" and i: "I (pass w')"
  have 1: "after True True (\<lambda>w'. I (pass w')) (each (process_path h comps cfg rx fuel) (path_entries spec) w')"
  proof (rule after_each [where Q = "\<lambda>w'. I (pass w')"])
    fix e and w'' :: walk assume i': "I (pass w'')"
    show "after True True (\<lambda>w'. I (pass w')) (process_path h comps cfg rx fuel e w'')"
      by (rule process_path_keeps [where I = I, OF CR AL UT i'])
  qed (rule i)
  have 2: "after True True (\<lambda>w'. I (pass w'))
      (in_pass (root_security h comps fuel (map_of (deep_copy spec) ''security'')) w')"
    by (rule in_pass_after) (rule root_security_keeps [where I = I, OF CR AL i])
  have 3: "after True True (\<lambda>w'. I (pass w')) (in_pass (each (force_error h comps fuel) ERROR_NAMES) w')"
  proof (rule in_pass_after, rule after_each [where Q = I])
    fix name s assume "I s"
    then show "after True True I (force_error h comps fuel name s)" by (rule FE)
  qed (rule i)
  have 4: "after True True (\<lambda>w'. I (pass w')) (in_pass (resolve h comps fuel fuel) w')"
    by (rule in_pass_after) (rule resolve_keeps [where I = I, OF CR i])
  from f 1 2 3 4 show "after True True (\<lambda>w'. I (pass w')) (f w')" by auto
qed (rule \<open>I (pass w)\<close>)

section \<open>Names that are always included\<close>

lemma has_add_same: "has (add v s) v"
  by (simp add: add_def has_def)

lemma has_add_other: "has s v \<Longrightarrow> has (add w s) v"
  by (simp add: add_def has_def)

lemma has_foldl_add: "has s v \<Longrightarrow> has (foldl (\<lambda>s n. add (f n) s) s ns) v"
  by (induction ns arbitrary: s) (auto intro: has_add_other)

lemma has_foldl_add_member: "n \<in> set ns \<Longrightarrow> has (foldl (\<lambda>s n. add (f n) s) s ns) (f n)"
proof (induction ns arbitrary: s)
  case Nil
  then show ?case by simp
next
  case (Cons m ns)
  show ?case
  proof (cases "n = m")
    case True
    have "has (foldl (\<lambda>s n. add (f n) s) (add (f m) s) ns) (f m)"
      by (rule has_foldl_add) (rule has_add_same)
    with True show ?thesis by simp
  next
    case False
    with Cons show ?thesis by simp
  qed
qed

lemma usedComponents_use: "usedComponents (use ty n s) ty' = (if ty' = ty then add n (usedComponents s ty) else usedComponents s ty')"
  by (simp add: use_def)

lemma has_use: "has (usedComponents s ty) v \<Longrightarrow> has (usedComponents (use ty' n s) ty) v"
  by (auto simp: usedComponents_use intro: has_add_other)

lemma usedComponents_warn [simp]: "usedComponents (warn r s) = usedComponents s"
  by (simp add: warn_def)

lemma usedComponents_mark [simp]: "usedComponents (mark v s) = usedComponents s"
  by (cases "address v") (simp_all add: mark_def)

lemma usedComponents_alloc [simp]: "usedComponents (alloc s) = usedComponents s"
  by (simp add: alloc_def)

lemma hereditary_True: "hereditary (\<lambda>v. True)"
  by (simp add: hereditary_def)

text \<open>An invariant that \<open>use\<close>, \<open>warn\<close> and \<open>mark\<close> keep is kept by the recursion.\<close>

lemma collectReferences_keeps:
  fixes I :: "state \<Rightarrow> bool"
  assumes U: "\<And>ty n s. I s \<Longrightarrow> I (use ty n s)"
    and W: "\<And>r s. I s \<Longrightarrow> I (warn r s)"
    and M: "\<And>v s. I s \<Longrightarrow> unvisited v s \<Longrightarrow> I (mark v s)"
    and "I s"
  shows "after True True I (collectReferences h comps n v s)"
proof -
  have "after True True (\<lambda>s'. I s' \<and> set (seenObjects s) \<subseteq> set (seenObjects s')) (collectReferences h comps n v s)"
  proof (rule collectReferences_after [where ok = "\<lambda>v. True" and L = "{}" and I = I])
    show "I (use ty n s)" if "I s" for ty n s using that by (rule U)
    show "I (warn r s)" if "I s" for r s using that by (rule W)
    show "I (mark v s)" if "I s" "unvisited v s" for v s using that by (rule M)
    show "hereditary (\<lambda>v. True)" by (rule hereditary_True)
  qed (simp_all add: \<open>I s\<close>)
  then show ?thesis by (rule after_mono) simp
qed

lemma has_kept_by_pass:
  fixes w :: walk
  assumes "has (usedComponents (pass w) ty) v"
  shows "after True True (\<lambda>w'. has (usedComponents (pass w') ty) v) (resolve_all h comps cfg rx fuel spec w)"
proof (rule resolve_all_keeps [where I = "\<lambda>s. has (usedComponents s ty) v"])
  show CR: "after True True (\<lambda>s. has (usedComponents s ty) v) (collectReferences h comps fuel u s)"
    if "has (usedComponents s ty) v" for u s
    using that by (intro collectReferences_keeps) (simp_all add: has_use)
  show "has (usedComponents (alloc s) ty) v" if "has (usedComponents s ty) v" for s using that by simp
  show "has (usedComponents (s\<lparr>usedTags := ts\<rparr>) ty) v" if "has (usedComponents s ty) v" for s ts using that by simp
  show "after True True (\<lambda>s. has (usedComponents s ty) v) (force_error h comps fuel name s)"
    if "has (usedComponents s ty) v" for name s
    using that by (intro force_error_keeps [where I = "\<lambda>s. has (usedComponents s ty) v"] CR) (simp_all add: has_use)
qed (rule assms)

lemma has_initial:
  "n \<in> set (alwaysIncludeComponents cfg) \<Longrightarrow> ty \<in> set COMPONENT_TYPES \<Longrightarrow>
   has (usedComponents (initial cfg a) ty) (Some (JStr n))"
  using has_foldl_add_member [of n "alwaysIncludeComponents cfg" "\<lambda>n. Some (JStr n)" "[]"]
  by (simp add: initial_def)

lemma filter_opt_member:
  "filter_opt p es = Some r \<Longrightarrow> e \<in> set es \<Longrightarrow> p e = Some True \<Longrightarrow> e \<in> set r"
proof (induction es arbitrary: r)
  case Nil
  then show ?case by simp
next
  case (Cons x es)
  from Cons.prems(1) obtain b r' where b: "p x = Some b" and r': "filter_opt p es = Some r'"
      and r: "r = (if b then x # r' else r')"
    by (auto split: option.splits)
  show ?case
  proof (cases "e = x")
    case True
    with Cons.prems(3) b r show ?thesis by simp
  next
    case False
    with Cons.prems(2) have "e \<in> set es" by simp
    from Cons.IH [OF r' this Cons.prems(3)] r show ?thesis by simp
  qed
qed

lemma filter_opt_defined: "filter_opt p es = Some r \<Longrightarrow> e \<in> set es \<Longrightarrow> p e \<noteq> None"
proof (induction es arbitrary: r)
  case Nil
  then show ?case by simp
next
  case (Cons x es)
  then show ?case by (cases "p x") (auto split: option.splits)
qed

lemma keys_foldl_update:
  "fst ` set (foldl (\<lambda>acc kv. AList.update (fst kv) (snd kv) acc) acc es) = fst ` set acc \<union> fst ` set es"
  by (induction es arbitrary: acc) (auto simp: dom_update)

lemma keys_fromEntries: "fst ` set (fromEntries es) = fst ` set es"
  by (simp add: fromEntries_def keys_foldl_update)

lemma categories_present:
  assumes "categories cfg used comps a tys = Some cs"
    and "ty \<in> set tys" "distinct tys"
    and "get comps ty = Some category" "truthy category"
    and "filter_opt (retained cfg (used ty) category) (entries category) = Some es"
    and "fromEntries es \<noteq> []"
  shows "\<exists>a'. map_of cs ty = Some (JObj a' (fromEntries es))"
  using assms(1,2,3)
proof (induction tys arbitrary: a cs)
  case Nil
  then show ?case by simp
next
  case (Cons t tys)
  show ?case
  proof (cases "t = ty")
    case True
    from Cons.prems(1) True assms(4,5,6) obtain r where
      "cs = (if fromEntries es = [] then r else (ty, JObj a (fromEntries es)) # r)"
      by (auto split: option.splits)
    with assms(7) show ?thesis by auto
  next
    case False
    with Cons.prems have ty: "ty \<in> set tys" "distinct tys" by auto
    from Cons.prems(1) obtain r where r: "categories cfg used comps (Suc a) tys = Some r"
      and cs: "cs = r \<or> (\<exists>v. cs = (t, v) # r)"
      by (auto split: option.splits if_splits)
    from Cons.IH [OF r ty] obtain a' where "map_of r ty = Some (JObj a' (fromEntries es))" by blast
    with cs False show ?thesis by auto
  qed
qed

lemma categories_defined:
  assumes "categories cfg used comps a tys = Some cs"
    and "ty \<in> set tys" "get comps ty = Some category" "truthy category"
  shows "\<exists>es. filter_opt (retained cfg (used ty) category) (entries category) = Some es"
  using assms(1,2)
proof (induction tys arbitrary: a cs)
  case Nil
  then show ?case by simp
next
  case (Cons t tys)
  show ?case
  proof (cases "t = ty")
    case True
    with Cons.prems(1) assms(3,4) show ?thesis by (auto split: option.splits)
  next
    case False
    with Cons.prems have ty: "ty \<in> set tys" by auto
    from Cons.prems(1) obtain r where r: "categories cfg used comps (Suc a) tys = Some r"
      by (auto split: option.splits if_splits)
    from Cons.IH [OF r ty] show ?thesis .
  qed
qed

lemma distinct_COMPONENT_TYPES: "distinct COMPONENT_TYPES"
  by (simp add: COMPONENT_TYPES_def)

lemma clean_field_nonempty:
  "map_of d f = Some v \<Longrightarrow> entries v \<noteq> [] \<Longrightarrow> map_of (clean_field f' d) f = Some v"
  by (cases "f = f'") (auto simp: clean_field_def clean_field_other split: option.splits)

lemma assemble_component_kept:
  assumes a: "assemble cfg st src d = Some d'"
    and c: "map_of src ''components'' = Some comps" "truthy comps"
    and ty: "ty \<in> set COMPONENT_TYPES" "get comps ty = Some category" "get category n = Some v"
    and used: "has (usedComponents st ty) (Some (JStr n))"
    and internal: "\<not> (excludeInternalComponents cfg \<and> truthy_opt (get v ''x-internal''))"
  shows "n \<in> set (component_names d' ty)"
proof -
  from a obtain d1 d2 where
    1: "filter_components cfg st src d = Some d1" and
    2: "filter_tags cfg st src (preserve_schemes src d1) = Some d2" and
    3: "d' = clean_empty d2"
    by (auto simp: assemble_def split: option.splits)
  from 1 c obtain cs where cs: "categories cfg (usedComponents st) comps (Suc (fresh st)) COMPONENT_TYPES = Some cs"
      and d1: "d1 = assign ''components'' (JObj (fresh st) cs) d"
    by (auto simp: filter_components_def)
  from ty(3) have e: "(n, v) \<in> set (entries category)" by (auto simp: get_def dest: map_of_SomeD)
  then have tc: "truthy category" by (cases category) auto
  from categories_defined [OF cs ty(1,2) tc] obtain es where
    es: "filter_opt (retained cfg (usedComponents st ty) category) (entries category) = Some es" by blast
  from filter_opt_defined [OF es e] ty(3) used internal
  have "retained cfg (usedComponents st ty) category (n, v) = Some True"
    by (auto simp: retained_def split: if_splits)
  from filter_opt_member [OF es e this] have "(n, v) \<in> set es" .
  then have "n \<in> fst ` set (fromEntries es)" unfolding keys_fromEntries by (rule rev_image_eqI) simp
  then have ne: "fromEntries es \<noteq> []" by auto
  from categories_present [OF cs ty(1) distinct_COMPONENT_TYPES ty(2) tc es ne] obtain a' where
    a': "map_of cs ty = Some (JObj a' (fromEntries es))" by blast
  then have csne: "cs \<noteq> []" by auto
  from d1 have "map_of d1 ''components'' = Some (JObj (fresh st) cs)"
    by (simp add: map_of_assign_same)
  then have "map_of (preserve_schemes src d1) ''components'' = Some (JObj (fresh st) cs)"
    by (simp add: map_of_preserve_schemes)
  with 2 have "map_of d2 ''components'' = Some (JObj (fresh st) cs)"
    by (simp add: map_of_filter_tags)
  then have k0: "map_of d2 ''components'' = Some (JObj (fresh st) cs)" .
  have ne2: "entries (JObj (fresh st) cs) \<noteq> []" using csne by simp
  note k1 = clean_field_nonempty [OF k0 ne2, of "''components''"]
  note k2 = clean_field_nonempty [OF k1 ne2, of "''security''"]
  note k3 = clean_field_nonempty [OF k2 ne2, of "''tags''"]
  from k3
  have "map_of (clean_field ''tags'' (clean_field ''security'' (clean_field ''components'' d2))) ''components''
      = Some (JObj (fresh st) cs)" .
  then have "map_of d' ''components'' = Some (JObj (fresh st) cs)" unfolding 3 clean_empty_unfold .
  then have "component_names d' ty = map fst (fromEntries es)"
    using a' by (simp add: component_names_def get_def)
  with \<open>n \<in> fst ` set (fromEntries es)\<close> show ?thesis by simp
qed


lemma pass_start: "pass (start cfg spec) = initial cfg (Suc (2 * above spec))"
  by (simp add: start_def)

text \<open>
  Claim C7, as the code has it. A name listed in \<open>alwaysIncludeComponents\<close> that is a
  key of one of the seven source categories is a key of that category in every document
  the pass returns, whether or not anything refers to it, unless
  \<open>excludeInternalComponents\<close> is set and its definition carries a truthy
  \<open>x-internal\<close>.
\<close>

theorem always_included_present:
  assumes "document_of (filterOpenAPI h fuel spec cfg) = Some d"
    and "n \<in> set (alwaysIncludeComponents cfg)" "ty \<in> set COMPONENT_TYPES"
    and "map_of spec ''components'' = Some comps" "truthy comps"
    and "get comps ty = Some category" "get category n = Some v"
    and "\<not> (excludeInternalComponents cfg \<and> truthy_opt (get v ''x-internal''))"
  shows "n \<in> set (component_names d ty)"
proof -
  from document_of_Some [OF assms(1)] obtain r where r: "filterOpenAPI h fuel spec cfg = Returned r" "returned r = d"
    by blast
  from filterOpenAPI_Returned [OF r(1)] obtain rx and w :: walk where
    w: "resolve_all h (map_of spec ''components'') cfg rx fuel spec (start cfg spec) = Done w" and
    a: "assemble cfg (pass w) (source_after spec (paths_src w))
        (assign ''paths'' (JObj (2 * above spec) (paths_out w)) (deep_copy spec)) = Some (returned r)"
    by blast
  have "has (usedComponents (pass (start cfg spec)) ty) (Some (JStr n))"
    unfolding pass_start using assms(2,3) by (rule has_initial)
  from has_kept_by_pass [OF this, of h "map_of spec ''components''" cfg rx fuel spec] w
  have used: "has (usedComponents (pass w) ty) (Some (JStr n))" by simp
  have c: "map_of (source_after spec (paths_src w)) ''components'' = Some comps"
    using assms(4) by (simp add: map_of_source_after)
  from assemble_component_kept [OF a c assms(5) assms(3) assms(6) assms(7) used assms(8)] r(2)
  show ?thesis by simp
qed


text \<open>The schema \<open>Foo\<close>, which nothing refers to, forced in with internal exclusion off.\<close>

theorem always_included_present_witness:
  "document_of (filterOpenAPI offline 20 doc_internal force_foo) = Some out_foo \<and>
   ''Foo'' \<in> set (alwaysIncludeComponents force_foo) \<and> ''schemas'' \<in> set COMPONENT_TYPES \<and>
   map_of doc_internal ''components'' = Some (JObj 2 [(''schemas'', JObj 3 [(''Foo'', foo_schema)])]) \<and>
   truthy (JObj 2 [(''schemas'', JObj 3 [(''Foo'', foo_schema)])]) \<and>
   get (JObj 2 [(''schemas'', JObj 3 [(''Foo'', foo_schema)])]) ''schemas'' = Some (JObj 3 [(''Foo'', foo_schema)]) \<and>
   get (JObj 3 [(''Foo'', foo_schema)]) ''Foo'' = Some foo_schema \<and>
   \<not> (excludeInternalComponents force_foo \<and> truthy_opt (get foo_schema ''x-internal'')) \<and>
   ''Foo'' \<in> set (component_names out_foo ''schemas'')"
proof -
  have 1: "document_of (filterOpenAPI offline 20 doc_internal force_foo) = Some out_foo" by code_simp
  have 2: "''Foo'' \<in> set (alwaysIncludeComponents force_foo)" by code_simp
  have 3: "''schemas'' \<in> set COMPONENT_TYPES" by code_simp
  have 4: "map_of doc_internal ''components'' = Some (JObj 2 [(''schemas'', JObj 3 [(''Foo'', foo_schema)])])"
    by code_simp
  have 5: "truthy (JObj 2 [(''schemas'', JObj 3 [(''Foo'', foo_schema)])])" by simp
  have 6: "get (JObj 2 [(''schemas'', JObj 3 [(''Foo'', foo_schema)])]) ''schemas'' = Some (JObj 3 [(''Foo'', foo_schema)])"
    by (simp add: get_def)
  have 7: "get (JObj 3 [(''Foo'', foo_schema)]) ''Foo'' = Some foo_schema" by (simp add: get_def)
  have 8: "\<not> (excludeInternalComponents force_foo \<and> truthy_opt (get foo_schema ''x-internal''))"
    by (simp add: force_foo_def)
  from always_included_present [OF 1 2 3 4 5 6 7 8] 1 2 3 4 5 6 7 8 show ?thesis by blast
qed

text \<open>
  As claim C7 states it, the name is in the output for every document. With
  \<open>excludeInternalComponents\<close> set, the forced schema \<open>Foo\<close> that carries
  \<open>x-internal\<close> is filtered out again: the output has no schema at all.
\<close>

theorem always_included_internal_counterexample:
  "map_option (\<lambda>d. component_names d ''schemas'') (document_of (filterOpenAPI offline 20 doc_internal keep_foo))
     = Some []"
  by code_simp

section \<open>Each cell is scanned at most once\<close>

lemma visited_address: "\<not> unvisited v s \<Longrightarrow> address v = Some a \<Longrightarrow> a \<in> set (seenObjects s)"
  by (simp add: unvisited_def)

lemma collectReferences_visited: "\<not> unvisited v s \<Longrightarrow> collectReferences h comps n v s = Done s"
  by (cases n) simp_all

lemma collectReferences_marks:
  assumes "address v = Some a"
  shows "after True True (\<lambda>s'. a \<in> set (seenObjects s')) (collectReferences h comps n v s)"
proof (cases "unvisited v s")
  case False
  with visited_address [OF False assms] show ?thesis by (simp add: collectReferences_visited)
next
  case True
  show ?thesis
  proof (cases n)
    case 0
    with True show ?thesis by simp
  next
    case (Suc m)
    define I where "I = (\<lambda>s' :: state. a \<in> set (seenObjects s'))"
    have keeps: "after True True I (collectReferences h comps m u s')" if "I s'" for u s'
      using that by (intro collectReferences_keeps) (auto simp: I_def mark_def split: option.splits)
    have RR: "recurses True True I (\<lambda>v. True) (collectReferences h comps m)"
      unfolding recurses_def using keeps by blast
    have U: "I (use ty k s')" if "I s'" for ty k s' using that by (simp add: I_def)
    have "I (mark v s)" using assms by (simp add: I_def seenObjects_mark)
    have "after True True I (scan h comps (collectReferences h comps m) v (mark v s))"
    proof (rule scan_after [where ok = "\<lambda>v. True", OF RR])
      fix ty k s' assume "I s'"
      show "after True True I (trackComponent comps (collectReferences h comps m) ty k s')"
        by (rule trackComponent_after [where ok = "\<lambda>v. True", OF RR]) (simp_all add: U \<open>I s'\<close>)
    next
      fix d s' assume "I s'"
      show "after True True I (trackComponent comps (collectReferences h comps m) ''schemas'' (Some d) s')"
        by (rule trackComponent_after [where ok = "\<lambda>v. True", OF RR]) (simp_all add: U \<open>I s'\<close>)
    next
      show "I (use ''securitySchemes'' (Some (JStr k)) s)" if "I s" for k s using that by (rule U)
      show "I (warn r s)" if "I s" for r s using that by (simp add: I_def)
      show "hereditary (\<lambda>v. True)" by (rule hereditary_True)
      show "I (mark v s)" by fact
    qed simp_all
    with True Suc show ?thesis by (simp add: I_def)
  qed
qed

lemma distinct_seen_kept:
  assumes "distinct (seenObjects s)"
  shows "after True True (\<lambda>s'. distinct (seenObjects s')) (collectReferences h comps n v s)"
proof (rule collectReferences_keeps [where I = "\<lambda>s. distinct (seenObjects s)"])
  fix u and s' :: state assume d: "distinct (seenObjects s')" and u: "unvisited u s'"
  from unvisited_address [OF u] obtain a where "address u = Some a" "a \<notin> set (seenObjects s')" by blast
  with d show "distinct (seenObjects (mark u s'))" by (simp add: seenObjects_mark)
qed (simp_all add: assms)

lemma distinct_add: "distinct (map ident_opt s) \<Longrightarrow> distinct (map ident_opt (add v s))"
  by (simp add: add_def has_def)

lemma distinct_used_kept:
  assumes "distinct (map ident_opt (usedComponents s ty))"
  shows "after True True (\<lambda>s'. distinct (map ident_opt (usedComponents s' ty))) (collectReferences h comps n v s)"
  by (rule collectReferences_keeps [where I = "\<lambda>s. distinct (map ident_opt (usedComponents s ty))"])
     (auto simp: usedComponents_use assms intro: distinct_add)

section \<open>Enough fuel\<close>

lemma lands_simps [simp]:
  "lands Q (Done s) = Q s"
  "lands Q (Threw s) = True"
  "lands Q OutOfFuel = False"
  by (simp_all add: lands_def)

lemma lands_mono: "lands P m \<Longrightarrow> (\<And>s. P s \<Longrightarrow> Q s) \<Longrightarrow> lands Q m"
  by (cases m) auto

lemma lands_andthen: "lands P m \<Longrightarrow> (\<And>s. P s \<Longrightarrow> lands Q (f s)) \<Longrightarrow> lands Q (andthen m f)"
  by (cases m) (auto simp: andthen_def)

lemma after_lands: "after t False Q m \<Longrightarrow> lands Q m"
  by (cases m) auto

lemma lands_each:
  "(\<And>e s. e \<in> set es \<Longrightarrow> Q s \<Longrightarrow> lands Q (f e s)) \<Longrightarrow> Q s \<Longrightarrow> lands Q (each f es s)"
proof (induction es arbitrary: s)
  case Nil
  then show ?case by simp
next
  case (Cons e es)
  show ?case unfolding each.simps
  proof (rule lands_andthen)
    show "lands Q (f e s)" using Cons.prems by simp
  next
    fix s' assume "Q s'"
    then show "lands Q (each f es s')" using Cons.prems(1) by (intro Cons.IH) auto
  qed
qed

lemma lands_in_pass:
  fixes w :: walk
  shows "lands Q (f (pass w)) \<Longrightarrow> lands (\<lambda>w'. \<exists>s. Q s \<and> w' = w\<lparr>pass := s\<rparr>) (in_pass f w)"
  by (cases "f (pass w)") (auto simp: in_pass_def)

lemma lands_visit:
  "(\<And>v. c = Some v \<Longrightarrow> truthy v \<Longrightarrow> lands Q (rec v s)) \<Longrightarrow> Q s \<Longrightarrow> lands Q (visit rec c s)"
  by (cases c) auto

subsection \<open>The addresses of a value\<close>

lemma within_iff: "within b v = (\<forall>a \<in> set (labels v). a < b)"
  by (simp add: within_def list_all_iff)

lemma vals_JStr: "vals (JStr s) = map (\<lambda>c. JStr [c]) s"
  by (simp add: vals_def)

lemma labels_vals: "w \<in> set (vals v) \<Longrightarrow> set (labels w) \<subseteq> set (labels v)"
proof (cases v)
  case (JStr s)
  assume "w \<in> set (vals v)"
  with JStr show ?thesis by (auto simp: vals_JStr)
next
  case (JArr l xs)
  assume "w \<in> set (vals v)"
  with JArr show ?thesis by auto
next
  case (JObj l kvs)
  assume "w \<in> set (vals v)"
  with JObj show ?thesis by auto
qed (simp_all add: vals_def)

lemma within_vals: "within b v \<Longrightarrow> w \<in> set (vals v) \<Longrightarrow> within b w"
  using labels_vals [of w v] by (auto simp: within_iff)

lemma hereditary_within: "hereditary (within b)"
  unfolding hereditary_def using within_vals by blast

lemma address_labels: "address v = Some a \<Longrightarrow> a \<in> set (labels v)"
  by (cases v) auto

lemma address_within: "within b v \<Longrightarrow> address v = Some a \<Longrightarrow> a < b"
  using address_labels [of v a] by (auto simp: within_iff)

lemma component_vals:
  assumes "component comps ty n = Some (Some c)"
  shows "\<exists>c0 t. comps = Some c0 \<and> t \<in> set (vals c0) \<and> c \<in> set (vals t)"
proof (cases comps)
  case None
  with assms show ?thesis by (simp add: component_def)
next
  case (Some c0)
  show ?thesis
  proof (cases "get c0 ty")
    case None
    with assms Some show ?thesis by (simp add: component_def split: if_splits)
  next
    case (Some t)
    from assms \<open>comps = Some c0\<close> Some obtain k where "get t k = Some c"
      by (auto simp: component_def split: if_splits option.splits)
    with get_in_vals [OF Some] get_in_vals [OF this] \<open>comps = Some c0\<close> show ?thesis by blast
  qed
qed

lemma component_within:
  assumes "case comps of None \<Rightarrow> True | Some c0 \<Rightarrow> within b c0" and "component comps ty n = Some (Some c)"
  shows "within b c"
proof -
  from component_vals [OF assms(2)] obtain c0 t where "comps = Some c0" "t \<in> set (vals c0)" "c \<in> set (vals t)"
    by blast
  with assms(1) show ?thesis by (auto intro: within_vals)
qed

lemma fresh_use [simp]: "fresh (use ty n s) = fresh s"
  by (simp add: use_def)

lemma fresh_warn [simp]: "fresh (warn r s) = fresh s"
  by (simp add: warn_def)

lemma fresh_mark [simp]: "fresh (mark v s) = fresh s"
  by (cases "address v") (simp_all add: mark_def)

lemma card_below: "card ({..<b} - S) \<le> (b::nat)"
proof -
  have "card ({..<b} - S) \<le> card {..<b}" by (intro card_mono) auto
  then show ?thesis by simp
qed

text \<open>
  With fuel for every address below \<open>b\<close>, the recursion on a value whose cells all lie
  below \<open>b\<close> does not run out; it leaves the allocation counter alone, only adds to
  \<open>seenObjects\<close>, and the value's own cell is in \<open>seenObjects\<close> afterwards.
\<close>

lemma collectReferences_lands:
  assumes fuel: "b \<le> fuel"
    and comps: "case comps of None \<Rightarrow> True | Some c0 \<Rightarrow> within b c0"
    and v: "within b v"
  shows "lands (\<lambda>s'. fresh s' = fresh s \<and> set (seenObjects s) \<subseteq> set (seenObjects s') \<and>
                    (\<forall>a. address v = Some a \<longrightarrow> a \<in> set (seenObjects s')))
           (collectReferences h comps fuel v s)"
proof -
  have "after True False (\<lambda>s'. fresh s' = fresh s \<and> set (seenObjects s) \<subseteq> set (seenObjects s'))
      (collectReferences h comps fuel v s)"
  proof (rule collectReferences_after [where ok = "within b" and L = "{..<b}" and I = "\<lambda>s'. fresh s' = fresh s"])
    show "hereditary (within b)" by (rule hereditary_within)
    show "within b c" if "component comps ty n = Some (Some c)" for ty n c
      using comps that by (rule component_within)
    show "False \<or> a \<in> {..<b}" if "within b u" "address u = Some a" for u a
      using address_within [OF that] by simp
    show "False \<or> card ({..<b} - set (seenObjects s)) \<le> fuel"
      using card_below [of b "set (seenObjects s)"] fuel by simp
  qed (simp_all add: v)
  moreover have "after True True (\<lambda>s'. \<forall>a. address v = Some a \<longrightarrow> a \<in> set (seenObjects s'))
      (collectReferences h comps fuel v s)"
  proof (cases "address v")
    case None
    then show ?thesis by (cases "collectReferences h comps fuel v s") simp_all
  next
    case (Some a)
    from collectReferences_marks [OF Some, of h comps fuel s] Some show ?thesis by simp
  qed
  ultimately have "after True False (\<lambda>s'. (fresh s' = fresh s \<and> set (seenObjects s) \<subseteq> set (seenObjects s')) \<and>
      (\<forall>a. address v = Some a \<longrightarrow> a \<in> set (seenObjects s'))) (collectReferences h comps fuel v s)"
    by (rule after_conj)
  then show ?thesis by (intro after_lands [where t = True]) (simp add: conj_assoc)
qed

subsection \<open>The walk over the paths\<close>

lemma uniqueParams_subset: "uniqueParams seenParams ps = Some u \<Longrightarrow> set u \<subseteq> set ps"
proof (induction ps arbitrary: seenParams u)
  case Nil
  then show ?case by simp
next
  case (Cons p ps)
  then show ?case by (fastforce split: option.splits if_splits)
qed

lemma update_vals: "snd ` set (AList.update k v al) \<subseteq> insert v (snd ` set al)"
  by (induction al) auto

lemma within_put: "within b v \<Longrightarrow> within b operation \<Longrightarrow> within b (put k v operation)"
proof (cases operation)
  case (JObj l kvs)
  assume v: "within b v" and o: "within b operation"
  have "snd ` set (assign k v kvs) \<subseteq> insert v (snd ` set kvs)"
    using update_vals [of k v kvs] by (auto simp: assign_def)
  with v o JObj show ?thesis by (fastforce simp: within_iff)
qed simp_all

lemma steps_three:
  "steps [f, g, k] s = andthen (f s) (\<lambda>s1. andthen (g s1) (\<lambda>s2. andthen (k s2) Done))"
proof -
  have "steps [k] = (\<lambda>s2. andthen (k s2) Done)"
    by (rule ext) (simp add: andthen_def split: outcome.splits)
  moreover have "steps [g, k] = (\<lambda>s1. andthen (g s1) (steps [k]))" by (rule ext) simp
  ultimately show ?thesis by simp
qed

lemma deduplicate_within:
  assumes "within b operation" and "a < b" and "deduplicate a operation = Some x"
  shows "within b x"
proof (cases "get operation ''parameters''")
  case None
  with assms show ?thesis by (simp add: deduplicate_def)
next
  case (Some p)
  show ?thesis
  proof (cases "truthy p")
    case False
    with assms Some show ?thesis by (simp add: deduplicate_def)
  next
    case True
    show ?thesis
    proof (cases p)
      case (JArr l ps)
      with assms Some True obtain u where u: "uniqueParams [] ps = Some u"
          and x: "x = put ''parameters'' (JArr a u) operation"
        by (auto simp: deduplicate_def)
      have "within b p" using get_in_vals [OF Some] assms(1) by (rule within_vals [rotated])
      with JArr uniqueParams_subset [OF u] \<open>a < b\<close> have "within b (JArr a u)"
        by (fastforce simp: within_iff)
      then show ?thesis unfolding x using assms(1) by (rule within_put)
    qed (use assms Some True in \<open>simp_all add: deduplicate_def\<close>)
  qed
qed

lemma within_with_entries:
  "within b item \<Longrightarrow> \<forall>m \<in> set ms. within b (snd m) \<Longrightarrow> within b (with_entries item ms)"
  by (cases item) (auto simp: within_iff)

lemma within_entries: "within b v \<Longrightarrow> e \<in> set (entries v) \<Longrightarrow> within b (snd e)"
  by (rule within_vals) (auto simp: vals_def)

lemma fresh_alloc [simp]: "fresh (alloc s) = Suc (fresh s)"
  by (simp add: alloc_def)

lemma seenObjects_alloc [simp]: "seenObjects (alloc s) = seenObjects s"
  by (simp add: alloc_def)

lemma process_operation_lands:
  fixes w :: walk
  assumes fuel: "b \<le> fuel"
    and comps: "case comps of None \<Rightarrow> True | Some c0 \<Rightarrow> within b c0"
    and e: "within b (snd e)"
    and f: "fresh (pass w) < b"
    and m: "\<forall>m \<in> set (members w). within b (snd m)"
  shows "lands (\<lambda>w'. fresh (pass w') \<le> Suc (fresh (pass w)) \<and> (\<forall>m \<in> set (members w'). within b (snd m)))
           (process_operation h comps cfg fuel e w)"
proof (cases "fst e \<in> set METHODS")
  case False
  with e m show ?thesis by (simp add: process_operation_def keep_def Let_def)
next
  case True
  note meth = True
  show ?thesis
  proof (cases "snd e = JNull")
    case True
    with meth show ?thesis by (simp add: process_operation_def Let_def)
  next
    case False
    note nn = False
    show ?thesis
    proof (cases "operationTags (snd e)")
      case None
      with meth nn show ?thesis by (simp add: process_operation_def Let_def)
    next
      case (Some ts)
      show ?thesis
      proof (cases "shouldInclude cfg ts")
        case False
        with meth nn Some e m show ?thesis by (simp add: process_operation_def keep_def Let_def)
      next
        case True
        show ?thesis
        proof (cases "deduplicate (fresh (pass w)) (snd e)")
          case None
          with meth nn Some True show ?thesis by (simp add: process_operation_def Let_def)
        next
          case (Some x)
          define s1 where "s1 = alloc ((pass w)\<lparr>usedTags := foldl (\<lambda>s t. add (Some t) s) (usedTags (pass w)) ts\<rparr>)"
          define w1 where "w1 = keep (fst e) x
                            (w\<lparr>pass := s1,
                               filteredPathItem := assign (fst e) x (filteredPathItem w),
                               hasOperations := True\<rparr>)"
          have x: "within b x" using e f Some by (rule deduplicate_within)
          have p1: "pass w1 = s1" by (simp add: w1_def keep_def)
          have f1: "fresh s1 = Suc (fresh (pass w))" by (simp add: s1_def)
          have m1: "\<forall>m \<in> set (members w1). within b (snd m)" using m x by (simp add: w1_def keep_def)
          have "lands (\<lambda>s'. fresh s' = fresh s1) (collectReferences h comps fuel x (pass w1))"
            unfolding p1 by (rule lands_mono [OF collectReferences_lands [OF fuel comps x]]) simp
          then have "lands (\<lambda>w'. \<exists>s. fresh s = fresh s1 \<and> w' = w1\<lparr>pass := s\<rparr>)
              (in_pass (collectReferences h comps fuel x) w1)"
            by (rule lands_in_pass)
          then have "lands (\<lambda>w'. fresh (pass w') \<le> Suc (fresh (pass w)) \<and> (\<forall>m \<in> set (members w'). within b (snd m)))
              (in_pass (collectReferences h comps fuel x) w1)"
            by (rule lands_mono) (use f1 m1 in auto)
          with meth nn \<open>operationTags (snd e) = Some ts\<close> True Some show ?thesis
            by (simp add: process_operation_def Let_def w1_def s1_def)
        qed
      qed
    qed
  qed
qed

lemma each_process_operation_lands:
  fixes w :: walk
  assumes fuel: "b \<le> fuel"
    and comps: "case comps of None \<Rightarrow> True | Some c0 \<Rightarrow> within b c0"
  shows "\<forall>e \<in> set es. within b (snd e) \<Longrightarrow> fresh (pass w) + length es \<le> b \<Longrightarrow>
         \<forall>m \<in> set (members w). within b (snd m) \<Longrightarrow>
         lands (\<lambda>w'. fresh (pass w') \<le> fresh (pass w) + length es \<and> (\<forall>m \<in> set (members w'). within b (snd m)))
           (each (process_operation h comps cfg fuel) es w)"
proof (induction es arbitrary: w)
  case Nil
  then show ?case by simp
next
  case (Cons e es)
  show ?case unfolding each.simps
  proof (rule lands_andthen)
    show "lands (\<lambda>w'. fresh (pass w') \<le> Suc (fresh (pass w)) \<and> (\<forall>m \<in> set (members w'). within b (snd m)))
           (process_operation h comps cfg fuel e w)"
      using Cons.prems by (intro process_operation_lands [OF fuel comps]) auto
  next
    fix w' :: walk
    assume a: "fresh (pass w') \<le> Suc (fresh (pass w)) \<and> (\<forall>m \<in> set (members w'). within b (snd m))"
    have "lands (\<lambda>w''. fresh (pass w'') \<le> fresh (pass w') + length es \<and> (\<forall>m \<in> set (members w''). within b (snd m)))
           (each (process_operation h comps cfg fuel) es w')"
      using Cons.prems a by (intro Cons.IH) auto
    then show "lands (\<lambda>w''. fresh (pass w'') \<le> fresh (pass w) + length (e # es) \<and> (\<forall>m \<in> set (members w''). within b (snd m)))
           (each (process_operation h comps cfg fuel) es w')"
      by (rule lands_mono) (use a in auto)
  qed
qed

lemma path_parameters_lands:
  assumes fuel: "b \<le> fuel"
    and comps: "case comps of None \<Rightarrow> True | Some c0 \<Rightarrow> within b c0"
    and item: "within b pathItem"
    and f: "fresh s < b"
  shows "lands (\<lambda>s'. fresh s' \<le> Suc (fresh s)) (path_parameters h comps fuel pathItem s)"
proof (cases "get pathItem ''parameters''")
  case None
  then show ?thesis by (simp add: path_parameters_def)
next
  case (Some p)
  have "within b p" using get_in_vals [OF Some] item by (rule within_vals [rotated])
  with f have t: "within b (JObj (fresh s) [(''parameters'', p)])" by (simp add: within_iff)
  have "lands (\<lambda>s'. fresh s' \<le> Suc (fresh s))
      (collectReferences h comps fuel (JObj (fresh s) [(''parameters'', p)]) (alloc s))"
    by (rule lands_mono [OF collectReferences_lands [OF fuel comps t]]) simp
  with Some show ?thesis by (simp add: path_parameters_def)
qed

lemma finish_path_lands:
  fixes w :: walk
  assumes fuel: "b \<le> fuel"
    and comps: "case comps of None \<Rightarrow> True | Some c0 \<Rightarrow> within b c0"
    and item: "within b pathItem"
    and m: "\<forall>m \<in> set (members w). within b (snd m)"
  shows "lands (\<lambda>w'. fresh (pass w') = fresh (pass w)) (finish_path h comps fuel a path pathItem w)"
proof (cases "hasOperations w")
  case False
  then show ?thesis by (simp add: finish_path_def Let_def)
next
  case True
  define w1 where "w1 = w\<lparr>paths_src := paths_src w @ [(path, with_entries pathItem (members w))],
      paths_out := assign path (JObj a (filteredPathItem w)) (paths_out w)\<rparr>"
  have p1: "pass w1 = pass w" by (simp add: w1_def)
  have t: "within b (with_entries pathItem (members w))" using item m by (rule within_with_entries)
  have "lands (\<lambda>s'. fresh s' = fresh (pass w))
      (collectReferences h comps fuel (with_entries pathItem (members w)) (pass w1))"
    unfolding p1 by (rule lands_mono [OF collectReferences_lands [OF fuel comps t]]) simp
  then have "lands (\<lambda>w'. \<exists>s. fresh s = fresh (pass w) \<and> w' = w1\<lparr>pass := s\<rparr>)
      (in_pass (collectReferences h comps fuel (with_entries pathItem (members w))) w1)"
    by (rule lands_in_pass)
  then have "lands (\<lambda>w'. fresh (pass w') = fresh (pass w))
      (in_pass (collectReferences h comps fuel (with_entries pathItem (members w))) w1)"
    by (rule lands_mono) auto
  with True show ?thesis by (simp add: finish_path_def Let_def w1_def)
qed

lemma process_path_lands:
  fixes w :: walk
  assumes fuel: "b \<le> fuel"
    and comps: "case comps of None \<Rightarrow> True | Some c0 \<Rightarrow> within b c0"
    and item: "within b (snd e)"
    and f: "fresh (pass w) + (2 + length (entries (snd e))) \<le> b"
  shows "lands (\<lambda>w'. fresh (pass w') \<le> fresh (pass w) + (2 + length (entries (snd e))))
           (process_path h comps cfg rx fuel e w)"
proof (cases "case rx of None \<Rightarrow> False | Some test \<Rightarrow> \<not> test (fst e)")
  case True
  then show ?thesis by (simp add: process_path_def Let_def)
next
  case False
  note go = False
  show ?thesis
  proof (cases "snd e = JNull")
    case True
    with go show ?thesis by (simp add: process_path_def Let_def)
  next
    case False
    define n where "n = length (entries (snd e))"
    define w0 where "w0 = w\<lparr>pass := alloc (pass w), filteredPathItem := [], hasOperations := False, members := []\<rparr>"
    have f0: "fresh (pass w0) = Suc (fresh (pass w))" by (simp add: w0_def)
    have m0: "members w0 = []" by (simp add: w0_def)
    have "lands (\<lambda>w'. fresh (pass w') \<le> fresh (pass w) + (2 + n))
       (andthen (in_pass (path_parameters h comps fuel (snd e)) w0)
          (\<lambda>w1. andthen (each (process_operation h comps cfg fuel) (entries (snd e)) w1)
             (\<lambda>w2. andthen (finish_path h comps fuel (fresh (pass w)) (fst e) (snd e) w2) Done)))"
    proof (rule lands_andthen [where P = "\<lambda>w1. fresh (pass w1) \<le> fresh (pass w) + 2 \<and> members w1 = []"])
      have "lands (\<lambda>s'. fresh s' \<le> Suc (fresh (pass w0))) (path_parameters h comps fuel (snd e) (pass w0))"
        using f f0 by (intro path_parameters_lands [OF fuel comps item]) simp
      then have "lands (\<lambda>w'. \<exists>s. fresh s \<le> Suc (fresh (pass w0)) \<and> w' = w0\<lparr>pass := s\<rparr>)
          (in_pass (path_parameters h comps fuel (snd e)) w0)"
        by (rule lands_in_pass)
      then show "lands (\<lambda>w1. fresh (pass w1) \<le> fresh (pass w) + 2 \<and> members w1 = [])
          (in_pass (path_parameters h comps fuel (snd e)) w0)"
        by (rule lands_mono) (use f0 m0 in auto)
    next
      fix w1 :: walk
      assume a1: "fresh (pass w1) \<le> fresh (pass w) + 2 \<and> members w1 = []"
      show "lands (\<lambda>w'. fresh (pass w') \<le> fresh (pass w) + (2 + n))
         (andthen (each (process_operation h comps cfg fuel) (entries (snd e)) w1)
             (\<lambda>w2. andthen (finish_path h comps fuel (fresh (pass w)) (fst e) (snd e) w2) Done))"
      proof (rule lands_andthen [where P = "\<lambda>w2. fresh (pass w2) \<le> fresh (pass w) + (2 + n) \<and>
            (\<forall>m \<in> set (members w2). within b (snd m))"])
        have "lands (\<lambda>w'. fresh (pass w') \<le> fresh (pass w1) + length (entries (snd e)) \<and>
              (\<forall>m \<in> set (members w'). within b (snd m)))
            (each (process_operation h comps cfg fuel) (entries (snd e)) w1)"
          using a1 f item by (intro each_process_operation_lands [OF fuel comps]) (auto intro: within_entries)
        then show "lands (\<lambda>w2. fresh (pass w2) \<le> fresh (pass w) + (2 + n) \<and>
              (\<forall>m \<in> set (members w2). within b (snd m)))
            (each (process_operation h comps cfg fuel) (entries (snd e)) w1)"
          by (rule lands_mono) (use a1 in \<open>auto simp: n_def\<close>)
      next
        fix w2 :: walk
        assume a2: "fresh (pass w2) \<le> fresh (pass w) + (2 + n) \<and> (\<forall>m \<in> set (members w2). within b (snd m))"
        show "lands (\<lambda>w'. fresh (pass w') \<le> fresh (pass w) + (2 + n))
            (andthen (finish_path h comps fuel (fresh (pass w)) (fst e) (snd e) w2) Done)"
        proof (rule lands_andthen [where P = "\<lambda>w'. fresh (pass w') \<le> fresh (pass w) + (2 + n)"])
          have "lands (\<lambda>w'. fresh (pass w') = fresh (pass w2))
              (finish_path h comps fuel (fresh (pass w)) (fst e) (snd e) w2)"
            using a2 by (intro finish_path_lands [OF fuel comps item]) simp
          then show "lands (\<lambda>w'. fresh (pass w') \<le> fresh (pass w) + (2 + n))
              (finish_path h comps fuel (fresh (pass w)) (fst e) (snd e) w2)"
            by (rule lands_mono) (use a2 in auto)
        qed simp
      qed
    qed
    with go False show ?thesis
      by (simp only: process_path_def Let_def steps_three w0_def n_def if_False)
  qed
qed

lemma need_Cons [simp]: "need (e # es) = 2 + length (entries (snd e)) + need es"
  by (simp add: need_def)

lemma need_Nil [simp]: "need [] = 0"
  by (simp add: need_def)

lemma each_process_path_lands:
  fixes w :: walk
  assumes fuel: "b \<le> fuel"
    and comps: "case comps of None \<Rightarrow> True | Some c0 \<Rightarrow> within b c0"
  shows "\<forall>e \<in> set es. within b (snd e) \<Longrightarrow> fresh (pass w) + need es \<le> b \<Longrightarrow>
         lands (\<lambda>w'. fresh (pass w') \<le> fresh (pass w) + need es)
           (each (process_path h comps cfg rx fuel) es w)"
proof (induction es arbitrary: w)
  case Nil
  then show ?case by simp
next
  case (Cons e es)
  show ?case unfolding each.simps
  proof (rule lands_andthen)
    show "lands (\<lambda>w'. fresh (pass w') \<le> fresh (pass w) + (2 + length (entries (snd e))))
           (process_path h comps cfg rx fuel e w)"
      using Cons.prems by (intro process_path_lands [OF fuel comps]) auto
  next
    fix w' :: walk
    assume a: "fresh (pass w') \<le> fresh (pass w) + (2 + length (entries (snd e)))"
    have "lands (\<lambda>w''. fresh (pass w'') \<le> fresh (pass w') + need es)
           (each (process_path h comps cfg rx fuel) es w')"
      using Cons.prems a by (intro Cons.IH) auto
    then show "lands (\<lambda>w''. fresh (pass w'') \<le> fresh (pass w) + need (e # es))
           (each (process_path h comps cfg rx fuel) es w')"
      by (rule lands_mono) (use a in auto)
  qed
qed

subsection \<open>The closure\<close>

lemma root_security_lands:
  assumes fuel: "b \<le> fuel"
    and comps: "case comps of None \<Rightarrow> True | Some c0 \<Rightarrow> within b c0"
    and sec: "case security of None \<Rightarrow> True | Some v \<Rightarrow> within b v"
    and f: "fresh s < b"
  shows "lands (\<lambda>s'. True) (root_security h comps fuel security s)"
proof (cases security)
  case None
  then show ?thesis by (simp add: root_security_def)
next
  case (Some v)
  with sec f have t: "within b (JObj (fresh s) [(''security'', v)])" by (simp add: within_iff)
  have "lands (\<lambda>s'. True) (collectReferences h comps fuel (JObj (fresh s) [(''security'', v)]) (alloc s))"
    by (rule lands_mono [OF collectReferences_lands [OF fuel comps t]]) simp
  with Some show ?thesis by (simp add: root_security_def)
qed

lemma force_error_lands:
  assumes fuel: "b \<le> fuel"
    and comps: "case comps of None \<Rightarrow> True | Some c0 \<Rightarrow> within b c0"
  shows "lands (\<lambda>s'. True) (force_error h comps fuel name s)"
proof (cases "component comps ''schemas'' (Some (JStr name))")
  case None
  then show ?thesis by (simp add: force_error_def)
next
  case (Some oc)
  show ?thesis
  proof (cases oc)
    case None
    with Some show ?thesis by (simp add: force_error_def)
  next
    case (Some c)
    with \<open>component comps ''schemas'' (Some (JStr name)) = Some oc\<close>
    have k: "component comps ''schemas'' (Some (JStr name)) = Some (Some c)" by simp
    have c: "within b c" using comps k by (rule component_within)
    have "lands (\<lambda>s'. True) (collectReferences h comps fuel c (use ''schemas'' (Some (JStr name)) s))"
      by (rule lands_mono [OF collectReferences_lands [OF fuel comps c]]) simp
    with k show ?thesis by (simp add: force_error_def)
  qed
qed

lemma unseen_mono: "set (seenObjects s) \<subseteq> set (seenObjects s') \<Longrightarrow> unseen b s' \<le> unseen b s"
  unfolding unseen_def by (intro card_mono) auto

lemma unseen_less:
  assumes "set (seenObjects s) \<subseteq> set (seenObjects s')" "a < b" "a \<notin> set (seenObjects s)" "a \<in> set (seenObjects s')"
  shows "unseen b s' < unseen b s"
  unfolding unseen_def using assms by (intro psubset_card_mono) auto

lemma visit_progress:
  assumes fuel: "b \<le> fuel"
    and comps: "case comps of None \<Rightarrow> True | Some c0 \<Rightarrow> within b c0"
    and c: "case c of None \<Rightarrow> True | Some v \<Rightarrow> within b v"
  shows "lands (\<lambda>s'. set (seenObjects s) \<subseteq> set (seenObjects s') \<and> (s' = s \<or> unseen b s' < unseen b s))
           (visit (collectReferences h comps fuel) c s)"
proof (rule lands_visit)
  fix v assume cv: "c = Some v" and "truthy v"
  from c cv have v: "within b v" by simp
  show "lands (\<lambda>s'. set (seenObjects s) \<subseteq> set (seenObjects s') \<and> (s' = s \<or> unseen b s' < unseen b s))
           (collectReferences h comps fuel v s)"
  proof (cases "unvisited v s")
    case False
    then show ?thesis by (simp add: collectReferences_visited)
  next
    case True
    from unvisited_address [OF this] obtain a where a: "address v = Some a" "a \<notin> set (seenObjects s)"
      by blast
    from address_within [OF v a(1)] have "a < b" .
    show ?thesis
    proof (rule lands_mono [OF collectReferences_lands [OF fuel comps v]])
      fix s' :: state
      assume "fresh s' = fresh s \<and> set (seenObjects s) \<subseteq> set (seenObjects s') \<and>
              (\<forall>a. address v = Some a \<longrightarrow> a \<in> set (seenObjects s'))"
      then have g: "set (seenObjects s) \<subseteq> set (seenObjects s')" and "a \<in> set (seenObjects s')"
        using a(1) by auto
      from unseen_less [OF g \<open>a < b\<close> a(2) this(2)] g
      show "set (seenObjects s) \<subseteq> set (seenObjects s') \<and> (s' = s \<or> unseen b s' < unseen b s)" by simp
    qed
  qed
qed simp

lemma resolve_name_lands:
  assumes fuel: "b \<le> fuel"
    and comps: "case comps of None \<Rightarrow> True | Some c0 \<Rightarrow> within b c0"
    and p: "progress b s0 cs"
  shows "lands (progress b s0) (resolve_name h comps fuel ty name cs)"
proof (cases "component comps ty name")
  case None
  then show ?thesis by (simp add: resolve_name_def)
next
  case (Some c)
  show ?thesis
  proof (cases "truthy_opt c")
    case False
    with Some p show ?thesis by (simp add: resolve_name_def)
  next
    case True
    have cw: "case c of None \<Rightarrow> True | Some v \<Rightarrow> within b v"
    proof (cases c)
      case (Some v)
      with \<open>component comps ty name = Some c\<close> have "component comps ty name = Some (Some v)" by simp
      with comps have "within b v" by (rule component_within)
      with Some show ?thesis by simp
    qed simp
    define m where "m = visit (collectReferences h comps fuel) c (snd cs)"
    have l: "lands (\<lambda>s'. set (seenObjects (snd cs)) \<subseteq> set (seenObjects s') \<and>
                 (s' = snd cs \<or> unseen b s' < unseen b (snd cs))) m"
      unfolding m_def using fuel comps cw by (rule visit_progress)
    have "lands (progress b s0) (flagged (fst cs) ty (length (usedComponents (snd cs) ty)) m)"
    proof (cases m)
      case (Done s')
      with l have g: "set (seenObjects (snd cs)) \<subseteq> set (seenObjects s')"
        and d: "s' = snd cs \<or> unseen b s' < unseen b (snd cs)" by simp_all
      from unseen_mono [OF g] have le: "unseen b s' \<le> unseen b (snd cs)" .
      from p have p1: "set (seenObjects s0) \<subseteq> set (seenObjects (snd cs))"
        and p2: "fst cs \<Longrightarrow> unseen b (snd cs) < unseen b s0" by (simp_all add: progress_def)
      from unseen_mono [OF p1] have le0: "unseen b (snd cs) \<le> unseen b s0" .
      have "progress b s0 (fst cs \<or> length (usedComponents (snd cs) ty) < length (usedComponents s' ty), s')"
        unfolding progress_def using g p1 p2 d le le0 by auto
      with Done show ?thesis by (simp add: flagged_def)
    qed (use l in \<open>simp_all add: flagged_def\<close>)
    with Some True show ?thesis by (simp add: resolve_name_def m_def)
  qed
qed

lemma resolve_round_lands:
  assumes fuel: "b \<le> fuel"
    and comps: "case comps of None \<Rightarrow> True | Some c0 \<Rightarrow> within b c0"
  shows "lands (progress b s) (resolve_round h comps fuel s)"
  unfolding resolve_round_def
proof (rule lands_each [where Q = "progress b s"])
  fix ty cs assume "progress b s cs"
  show "lands (progress b s) (resolve_type h comps fuel ty cs)"
    unfolding resolve_type_def
  proof (rule lands_each [where Q = "progress b s"])
    fix name cs' assume "progress b s cs'"
    with fuel comps show "lands (progress b s) (resolve_name h comps fuel ty name cs')"
      by (rule resolve_name_lands)
  qed fact
qed (simp add: progress_def)

lemma resolve_lands:
  assumes fuel: "b \<le> fuel"
    and comps: "case comps of None \<Rightarrow> True | Some c0 \<Rightarrow> within b c0"
  shows "unseen b s < rounds \<Longrightarrow> lands (\<lambda>s'. True) (resolve h comps fuel rounds s)"
proof (induction rounds arbitrary: s)
  case 0
  then show ?case by simp
next
  case (Suc rounds)
  from resolve_round_lands [OF fuel comps, of s h] show ?case
  proof (cases "resolve_round h comps fuel s")
    case (Done cs)
    assume "lands (progress b s) (resolve_round h comps fuel s)"
    with Done have p: "progress b s cs" by simp
    show ?thesis
    proof (cases "fst cs")
      case True
      with p Suc.prems have "unseen b (snd cs) < rounds" by (simp add: progress_def)
      from Suc.IH [OF this] Done True show ?thesis by simp
    next
      case False
      with Done show ?thesis by simp
    qed
  qed simp_all
qed

lemma unseen_below: "unseen b s \<le> b"
  unfolding unseen_def by (rule card_below)

subsection \<open>The whole pass\<close>

lemma fold_max_ge: "(m::nat) \<le> fold max xs m"
proof (induction xs arbitrary: m)
  case Nil
  then show ?case by simp
next
  case (Cons a xs)
  have "m \<le> max a m" by simp
  also have "\<dots> \<le> fold max xs (max a m)" by (rule Cons.IH)
  finally show ?case by simp
qed

lemma fold_max_member: "(x::nat) \<in> set xs \<Longrightarrow> x \<le> fold max xs m"
proof (induction xs arbitrary: m)
  case Nil
  then show ?case by simp
next
  case (Cons y ys)
  show ?case
  proof (cases "x = y")
    case True
    have "max y m \<le> fold max ys (max y m)" by (rule fold_max_ge)
    with True show ?thesis by simp
  next
    case False
    with Cons show ?thesis by simp
  qed
qed

lemma within_above: "map_of spec k = Some v \<Longrightarrow> within (above spec) v"
proof -
  assume "map_of spec k = Some v"
  then have "(k, v) \<in> set spec" by (rule map_of_SomeD)
  then have "set (labels v) \<subseteq> set (doc_labels spec)" by (force simp: doc_labels_def)
  then show ?thesis using fold_max_member [of _ "doc_labels spec" 0]
    by (fastforce simp: within_iff above_def less_Suc_eq_le)
qed

lemma within_mono: "within b v \<Longrightarrow> b \<le> b' \<Longrightarrow> within b' v"
  by (auto simp: within_iff)

lemma labels_relabel: "labels (relabel f v) = map f (labels v)"
  by (induction f v rule: relabel.induct) (simp_all add: map_concat comp_def cong: map_cong)

lemma labels_reparsed: "labels (reparsed v) = labels v"
  by (induction v rule: reparsed.induct) (simp_all add: comp_def cong: map_cong)

lemma within_deep_copy:
  assumes "map_of (deep_copy spec) k = Some v"
  shows "within (2 * above spec) v"
proof -
  from assms obtain u where u: "map_of spec k = Some u" and v: "v = relabel (\<lambda>l. l + above spec) (reparsed u)"
    by (auto simp: map_of_deep_copy)
  from within_above [OF u] show ?thesis unfolding v by (auto simp: within_iff labels_relabel labels_reparsed)
qed

lemma within_path_entries:
  assumes "e \<in> set (path_entries spec)"
  shows "within (above spec) (snd e)"
proof (cases "map_of spec ''paths''")
  case None
  with assms show ?thesis by (simp add: path_entries_def)
next
  case (Some p)
  with assms have "e \<in> set (entries p)" by (simp add: path_entries_def split: if_splits)
  with within_above [OF Some] show ?thesis by (rule within_entries)
qed

lemma fresh_initial [simp]: "fresh (initial cfg a) = a"
  by (simp add: initial_def)

lemma resolve_all_lands:
  assumes fuel: "enough spec \<le> fuel"
  shows "lands (\<lambda>w. True) (resolve_all h (map_of spec ''components'') cfg rx fuel spec (start cfg spec))"
proof -
  define b where "b = cells spec"
  define comps where "comps = map_of spec ''components''"
  have bf: "b \<le> fuel" and bf': "b < fuel" using fuel by (simp_all add: enough_def b_def)
  have ab: "above spec \<le> b" and ab2: "2 * above spec \<le> b" by (simp_all add: b_def cells_def)
  have cw: "case comps of None \<Rightarrow> True | Some c0 \<Rightarrow> within b c0"
  proof (cases comps)
    case (Some c0)
    then have "within (above spec) c0" unfolding comps_def by (rule within_above)
    with Some ab show ?thesis by (simp add: within_mono)
  qed simp
  have sw: "case map_of (deep_copy spec) ''security'' of None \<Rightarrow> True | Some v \<Rightarrow> within b v"
  proof (cases "map_of (deep_copy spec) ''security''")
    case (Some v)
    then have "within (2 * above spec) v" by (rule within_deep_copy)
    with Some ab2 show ?thesis by (simp add: within_mono)
  qed simp
  have f0: "fresh (pass (start cfg spec)) = Suc (2 * above spec)" by (simp add: start_def)
  have "lands (\<lambda>w. True)
     (andthen (each (process_path h comps cfg rx fuel) (path_entries spec) (start cfg spec))
        (\<lambda>w1. andthen (in_pass (root_security h comps fuel (map_of (deep_copy spec) ''security'')) w1)
           (\<lambda>w2. andthen (in_pass (each (force_error h comps fuel) ERROR_NAMES) w2)
              (\<lambda>w3. andthen (in_pass (resolve h comps fuel fuel) w3) Done))))"
  proof (rule lands_andthen [where P = "\<lambda>w1. fresh (pass w1) < b"])
    have "lands (\<lambda>w'. fresh (pass w') \<le> fresh (pass (start cfg spec)) + need (path_entries spec))
        (each (process_path h comps cfg rx fuel) (path_entries spec) (start cfg spec))"
    proof (rule each_process_path_lands [OF bf cw])
      show "\<forall>e \<in> set (path_entries spec). within b (snd e)"
        using within_path_entries ab by (blast intro: within_mono)
      show "fresh (pass (start cfg spec)) + need (path_entries spec) \<le> b"
        by (simp add: f0 b_def cells_def)
    qed
    then show "lands (\<lambda>w1. fresh (pass w1) < b)
        (each (process_path h comps cfg rx fuel) (path_entries spec) (start cfg spec))"
      by (rule lands_mono) (simp add: f0 b_def cells_def)
  next
    fix w1 :: walk
    assume f1: "fresh (pass w1) < b"
    show "lands (\<lambda>w. True)
        (andthen (in_pass (root_security h comps fuel (map_of (deep_copy spec) ''security'')) w1)
           (\<lambda>w2. andthen (in_pass (each (force_error h comps fuel) ERROR_NAMES) w2)
              (\<lambda>w3. andthen (in_pass (resolve h comps fuel fuel) w3) Done)))"
    proof (rule lands_andthen [where P = "\<lambda>w. True"])
      have "lands (\<lambda>s'. True) (root_security h comps fuel (map_of (deep_copy spec) ''security'') (pass w1))"
        using bf cw sw f1 by (rule root_security_lands)
      then have "lands (\<lambda>w'. \<exists>s. True \<and> w' = w1\<lparr>pass := s\<rparr>)
          (in_pass (root_security h comps fuel (map_of (deep_copy spec) ''security'')) w1)"
        by (rule lands_in_pass)
      then show "lands (\<lambda>w. True) (in_pass (root_security h comps fuel (map_of (deep_copy spec) ''security'')) w1)"
        by (rule lands_mono) simp
    next
      fix w2 :: walk
      show "lands (\<lambda>w. True)
          (andthen (in_pass (each (force_error h comps fuel) ERROR_NAMES) w2)
              (\<lambda>w3. andthen (in_pass (resolve h comps fuel fuel) w3) Done))"
      proof (rule lands_andthen [where P = "\<lambda>w. True"])
        have "lands (\<lambda>s'. True) (each (force_error h comps fuel) ERROR_NAMES (pass w2))"
          by (rule lands_each [where Q = "\<lambda>s'. True"]) (simp_all add: force_error_lands [OF bf cw])
        then have "lands (\<lambda>w'. \<exists>s. True \<and> w' = w2\<lparr>pass := s\<rparr>)
            (in_pass (each (force_error h comps fuel) ERROR_NAMES) w2)"
          by (rule lands_in_pass)
        then show "lands (\<lambda>w. True) (in_pass (each (force_error h comps fuel) ERROR_NAMES) w2)"
          by (rule lands_mono) simp
      next
        fix w3 :: walk
        show "lands (\<lambda>w. True) (andthen (in_pass (resolve h comps fuel fuel) w3) Done)"
        proof (rule lands_andthen [where P = "\<lambda>w. True"])
          have "unseen b (pass w3) < fuel" using unseen_below [of b "pass w3"] bf' by simp
          with bf cw have "lands (\<lambda>s'. True) (resolve h comps fuel fuel (pass w3))"
            by (rule resolve_lands)
          then have "lands (\<lambda>w'. \<exists>s. True \<and> w' = w3\<lparr>pass := s\<rparr>) (in_pass (resolve h comps fuel fuel) w3)"
            by (rule lands_in_pass)
          then show "lands (\<lambda>w. True) (in_pass (resolve h comps fuel fuel) w3)"
            by (rule lands_mono) simp
        qed simp
      qed
    qed
  qed
  moreover have "steps [f, g, k, l] s =
      andthen (f s) (\<lambda>s1. andthen (g s1) (\<lambda>s2. andthen (k s2) (\<lambda>s3. andthen (l s3) Done)))"
    for f g k l :: "walk \<Rightarrow> walk outcome" and s
  proof -
    have "steps [g, k, l] = (\<lambda>s1. andthen (g s1) (\<lambda>s2. andthen (k s2) (\<lambda>s3. andthen (l s3) Done)))"
      by (rule ext) (simp only: steps_three)
    then show ?thesis by simp
  qed
  ultimately show ?thesis by (simp only: resolve_all_def comps_def)
qed

lemma filterOpenAPI_not_Exhausted:
  assumes "enough spec \<le> fuel"
  shows "filterOpenAPI h fuel spec cfg \<noteq> Exhausted"
proof (cases "pathRegex h cfg")
  case None
  then show ?thesis by (simp add: filterOpenAPI_def)
next
  case (Some rx)
  from resolve_all_lands [OF assms, of h cfg rx] Some show ?thesis
    by (cases "resolve_all h (map_of spec ''components'') cfg rx fuel spec (start cfg spec)")
       (simp_all add: filterOpenAPI_def split: option.splits)
qed

section \<open>Every reachable name has its body scanned\<close>

lemma returns_simps [simp]:
  "returns Q (Done s) = Q s"
  "returns Q (Threw s) = True"
  "returns Q OutOfFuel = True"
  by (simp_all add: returns_def)

lemma returns_mono: "returns P m \<Longrightarrow> (\<And>s. P s \<Longrightarrow> Q s) \<Longrightarrow> returns Q m"
  by (cases m) auto

lemma returns_andthen: "returns P m \<Longrightarrow> (\<And>s. P s \<Longrightarrow> returns Q (f s)) \<Longrightarrow> returns Q (andthen m f)"
  by (cases m) (auto simp: andthen_def)

lemma after_returns: "after t x Q m \<Longrightarrow> returns Q m"
  by (cases m) auto

lemma returns_in_pass:
  fixes w :: walk
  shows "returns Q (f (pass w)) \<Longrightarrow> returns (\<lambda>w'. Q (pass w')) (in_pass f w)"
  by (cases "f (pass w)") (auto simp: in_pass_def)

lemma scanned_mono:
  "scanned comps s ty name \<Longrightarrow> set (seenObjects s) \<subseteq> set (seenObjects s') \<Longrightarrow> scanned comps s' ty name"
  by (auto simp: scanned_def split: option.splits)

lemma scanned_falsy: "component comps ty name = Some c \<Longrightarrow> \<not> truthy_opt c \<Longrightarrow> scanned comps s ty name"
proof (cases c)
  case (Some v)
  assume "component comps ty name = Some c" "\<not> truthy_opt c"
  with Some show ?thesis by (cases v) (simp_all add: scanned_def)
qed (simp add: scanned_def)

lemma scanned_None: "component comps ty name = None \<Longrightarrow> scanned comps s ty name"
  by (simp add: scanned_def)

lemma scanned_marked:
  "component comps ty name = Some (Some v) \<Longrightarrow> \<forall>a. address v = Some a \<longrightarrow> a \<in> set (seenObjects s) \<Longrightarrow>
   scanned comps s ty name"
  by (simp add: scanned_def split: option.splits)

lemma set_add: "set (add v s) \<subseteq> insert v (set s)"
  by (auto simp: add_def)

lemma tracked_seen:
  assumes "tracked comps E s" "usedComponents s' = usedComponents s" "set (seenObjects s) \<subseteq> set (seenObjects s')"
  shows "tracked comps E s'"
  unfolding tracked_def
proof (intro allI ballI)
  fix ty name assume "name \<in> set (usedComponents s' ty)"
  with assms(1,2) have "E ty name \<or> scanned comps s ty name" by (simp add: tracked_def)
  with assms(3) show "E ty name \<or> scanned comps s' ty name" by (auto intro: scanned_mono)
qed

lemma tracked_warn: "tracked comps E s \<Longrightarrow> tracked comps E (warn r s)"
  by (rule tracked_seen, assumption) simp_all

lemma tracked_alloc: "tracked comps E s \<Longrightarrow> tracked comps E (alloc s)"
  by (rule tracked_seen, assumption) (simp_all add: alloc_def)

lemma tracked_mark: "tracked comps E s \<Longrightarrow> tracked comps E (mark v s)"
proof (cases "address v")
  case None
  assume "tracked comps E s"
  with None show ?thesis by (simp add: mark_def)
next
  case (Some a)
  assume "tracked comps E s"
  then show ?thesis by (rule tracked_seen) (auto simp: mark_def Some)
qed

lemma tracked_use:
  assumes "tracked comps E s"
  shows "tracked comps (\<lambda>t m. E t m \<or> t = ty \<and> m = name) (use ty name s)"
  unfolding tracked_def
proof (intro allI ballI)
  fix t m assume m: "m \<in> set (usedComponents (use ty name s) t)"
  show "(E t m \<or> t = ty \<and> m = name) \<or> scanned comps (use ty name s) t m"
  proof (cases "t = ty \<and> m = name")
    case False
    with m set_add [of name "usedComponents s ty"] have "m \<in> set (usedComponents s t)"
      by (auto simp: usedComponents_use split: if_splits)
    with assms have "E t m \<or> scanned comps s t m" by (simp add: tracked_def)
    then show ?thesis by (auto intro: scanned_mono)
  qed simp
qed

lemma tracked_weaken: "tracked comps E s \<Longrightarrow> (\<And>t m. E t m \<Longrightarrow> E' t m \<or> scanned comps s t m) \<Longrightarrow> tracked comps E' s"
  unfolding tracked_def by blast

lemma tracked_use_exempt: "tracked comps E s \<Longrightarrow> E ty name \<Longrightarrow> tracked comps E (use ty name s)"
  by (rule tracked_weaken [OF tracked_use]) auto

lemma tracked_use_scanned:
  "tracked comps E s \<Longrightarrow> scanned comps s ty name \<Longrightarrow> tracked comps E (use ty name s)"
  by (rule tracked_weaken [OF tracked_use]) (auto intro: scanned_mono)

text \<open>
  The step that puts a name into a reachable set and scans its body at once: the name
  is let off until the scan of the body has come back.
\<close>

lemma scan_named:
  assumes IH: "\<And>E v s. (\<And>n. E ''securitySchemes'' n) \<Longrightarrow> tracked comps E s \<Longrightarrow>
                 after True True (tracked comps E) (collectReferences h comps n v s)"
    and SS: "\<And>n. E ''securitySchemes'' n"
    and c: "component comps ty name = Some c"
    and s: "tracked comps E s"
  shows "after True True (tracked comps E) (visit (collectReferences h comps n) c (use ty name s))"
proof (cases "truthy_opt c")
  case False
  have "tracked comps E (use ty name s)" by (rule tracked_use_scanned [OF s scanned_falsy [OF c False]])
  with False show ?thesis by (cases c) simp_all
next
  case True
  then obtain v where v: "c = Some v" "truthy v" by (cases c) auto
  define E' where "E' = (\<lambda>t m. E t m \<or> t = ty \<and> m = name)"
  have s1: "tracked comps E' (use ty name s)" unfolding E'_def using s by (rule tracked_use)
  have "after True True (tracked comps E') (collectReferences h comps n v (use ty name s))"
    by (rule IH [OF _ s1]) (simp add: E'_def SS)
  moreover have "after True True (\<lambda>s'. \<forall>a. address v = Some a \<longrightarrow> a \<in> set (seenObjects s'))
      (collectReferences h comps n v (use ty name s))"
  proof (cases "address v")
    case None
    then show ?thesis by (cases "collectReferences h comps n v (use ty name s)") simp_all
  next
    case (Some a)
    from collectReferences_marks [OF Some, of h comps n "use ty name s"] Some show ?thesis by simp
  qed
  ultimately have "after True True (\<lambda>s'. tracked comps E' s' \<and> (\<forall>a. address v = Some a \<longrightarrow> a \<in> set (seenObjects s')))
      (collectReferences h comps n v (use ty name s))"
    by (rule after_conj)
  then have "after True True (tracked comps E) (collectReferences h comps n v (use ty name s))"
  proof (rule after_mono)
    fix s' :: state
    assume a: "tracked comps E' s' \<and> (\<forall>a. address v = Some a \<longrightarrow> a \<in> set (seenObjects s'))"
    have sc: "scanned comps s' ty name" by (rule scanned_marked [of comps ty name v]) (use a c v(1) in auto)
    from a have t: "tracked comps E' s'" by simp
    show "tracked comps E s'" by (rule tracked_weaken [OF t]) (use sc in \<open>auto simp: E'_def\<close>)
  qed
  with v show ?thesis by simp
qed

lemma trackComponent_tracked:
  assumes IH: "\<And>E v s. (\<And>n. E ''securitySchemes'' n) \<Longrightarrow> tracked comps E s \<Longrightarrow>
                 after True True (tracked comps E) (collectReferences h comps n v s)"
    and SS: "\<And>n. E ''securitySchemes'' n"
    and s: "tracked comps E s"
  shows "after True True (tracked comps E) (trackComponent comps (collectReferences h comps n) ty name s)"
proof (cases "has (usedComponents s ty) name")
  case True
  with s show ?thesis by (simp add: trackComponent_def)
next
  case False
  show ?thesis
  proof (cases "component comps ty name")
    case None
    have "tracked comps E (use ty name s)" by (rule tracked_use_scanned [OF s scanned_None [OF None]])
    with False None show ?thesis by (simp add: trackComponent_def)
  next
    case (Some c)
    from scan_named [of comps h n E, OF IH SS Some s] False Some show ?thesis
      by (simp add: trackComponent_def)
  qed
qed

lemma collectReferences_tracked:
  "(\<And>n. E ''securitySchemes'' n) \<Longrightarrow> tracked comps E s \<Longrightarrow>
   after True True (tracked comps E) (collectReferences h comps n v s)"
proof (induction n arbitrary: E v s)
  case 0
  then show ?case by simp
next
  case (Suc n)
  show ?case
  proof (cases "unvisited v s")
    case False
    with Suc.prems show ?thesis by simp
  next
    case True
    have RR: "recurses True True (tracked comps E) (\<lambda>v. True) (collectReferences h comps n)"
      unfolding recurses_def using Suc.IH [of E] Suc.prems(1) by blast
    have "after True True (tracked comps E) (scan h comps (collectReferences h comps n) v (mark v s))"
    proof (rule scan_after [where ok = "\<lambda>v. True", OF RR])
      fix ty m and s' :: state assume "tracked comps E s'"
      show "after True True (tracked comps E) (trackComponent comps (collectReferences h comps n) ty m s')"
        by (rule trackComponent_tracked [of comps h n E, OF Suc.IH Suc.prems(1) \<open>tracked comps E s'\<close>])
    next
      fix d and s' :: state assume "tracked comps E s'"
      show "after True True (tracked comps E)
          (trackComponent comps (collectReferences h comps n) ''schemas'' (Some d) s')"
        by (rule trackComponent_tracked [of comps h n E, OF Suc.IH Suc.prems(1) \<open>tracked comps E s'\<close>])
    next
      fix k and s' :: state assume "tracked comps E s'"
      then show "tracked comps E (use ''securitySchemes'' (Some (JStr k)) s')"
        by (rule tracked_use_exempt) (rule Suc.prems(1))
    next
      fix r and s' :: state assume "tracked comps E s'"
      then show "tracked comps E (warn r s')" by (rule tracked_warn)
    next
      show "tracked comps E (mark v s)" using Suc.prems(2) by (rule tracked_mark)
    qed (simp_all add: hereditary_True)
    with True show ?thesis by simp
  qed
qed

subsection \<open>One round of the closure\<close>

lemma andthen_assoc: "andthen (andthen m f) g = andthen m (\<lambda>s. andthen (f s) g)"
  by (cases m) (simp_all add: andthen_def)

lemma each_append: "each f (xs @ ys) s = andthen (each f xs s) (each f ys)"
proof (induction xs arbitrary: s)
  case Nil
  show ?case by (simp add: andthen_def)
next
  case (Cons x xs)
  have "each f (xs @ ys) = (\<lambda>s. andthen (each f xs s) (each f ys))" by (rule ext) (rule Cons.IH)
  then show ?case by (simp add: andthen_assoc)
qed

lemma returns_each_growing:
  "(\<And>N e s. e \<in> set es \<Longrightarrow> Q N s \<Longrightarrow> returns (Q (insert e N)) (f e s)) \<Longrightarrow> Q N s \<Longrightarrow>
   returns (Q (N \<union> set es)) (each f es s)"
proof (induction es arbitrary: N s)
  case Nil
  then show ?case by simp
next
  case (Cons e es)
  show ?case unfolding each.simps
  proof (rule returns_andthen)
    show "returns (Q (insert e N)) (f e s)" using Cons.prems by simp
  next
    fix s' assume q: "Q (insert e N) s'"
    have "returns (Q (insert e N \<union> set es)) (each f es s')"
    proof (rule Cons.IH)
      fix N' e' s'' assume "e' \<in> set es" "Q N' s''"
      then show "returns (Q (insert e' N')) (f e' s'')" using Cons.prems(1) by simp
    qed (rule q)
    then show "returns (Q (N \<union> set (e # es))) (each f es s')" by simp
  qed
qed

lemma set_add_keeps: "x \<in> set s \<Longrightarrow> x \<in> set (add v s)"
  by (simp add: add_def)

lemma seeded_kept:
  assumes "seeded cfg s"
  shows "after True True (seeded cfg) (collectReferences h comps n v s)"
proof (rule collectReferences_keeps [where I = "seeded cfg"])
  fix ty m and s' :: state assume "seeded cfg s'"
  then show "seeded cfg (use ty m s')"
    by (auto simp: seeded_def usedComponents_use intro: set_add_keeps)
qed (use assms in \<open>simp_all add: seeded_def\<close>)

lemma add_appends: "\<exists>zs. add v s = s @ zs"
  by (simp add: add_def)

lemma use_appends: "\<exists>zs. usedComponents (use t m s) ty = usedComponents s ty @ zs"
  using add_appends [of m "usedComponents s ty"] by (auto simp: usedComponents_use)

lemma grown_kept:
  "after True True (\<lambda>s'. set (seenObjects s) \<subseteq> set (seenObjects s') \<and>
                       (\<exists>ys. usedComponents s' ty = usedComponents s ty @ ys))
     (collectReferences h comps n v s)"
proof (rule collectReferences_keeps [where I = "\<lambda>s'. set (seenObjects s) \<subseteq> set (seenObjects s') \<and>
                       (\<exists>ys. usedComponents s' ty = usedComponents s ty @ ys)"])
  fix t m and s' :: state
  assume a: "set (seenObjects s) \<subseteq> set (seenObjects s') \<and> (\<exists>ys. usedComponents s' ty = usedComponents s ty @ ys)"
  then obtain ys where ys: "usedComponents s' ty = usedComponents s ty @ ys" by blast
  from use_appends [of t m s' ty] obtain zs where "usedComponents (use t m s') ty = usedComponents s' ty @ zs"
    by blast
  with ys have "usedComponents (use t m s') ty = usedComponents s ty @ (ys @ zs)" by simp
  then have "\<exists>zs. usedComponents (use t m s') ty = usedComponents s ty @ zs" by blast
  with a show "set (seenObjects s) \<subseteq> set (seenObjects (use t m s')) \<and>
      (\<exists>ys. usedComponents (use t m s') ty = usedComponents s ty @ ys)" by simp
next
  fix u and s' :: state
  assume a: "set (seenObjects s) \<subseteq> set (seenObjects s') \<and> (\<exists>ys. usedComponents s' ty = usedComponents s ty @ ys)"
    and "unvisited u s'"
  from unvisited_address [OF this(2)] obtain a' where "address u = Some a'" by blast
  with a show "set (seenObjects s) \<subseteq> set (seenObjects (mark u s')) \<and>
      (\<exists>ys. usedComponents (mark u s') ty = usedComponents s ty @ ys)"
    by (auto simp: mark_def)
qed simp_all

lemma body_marked:
  "after True True (\<lambda>s'. \<forall>a. address v = Some a \<longrightarrow> a \<in> set (seenObjects s')) (collectReferences h comps n v s)"
proof (cases "address v")
  case None
  then show ?thesis by (cases "collectReferences h comps n v s") simp_all
next
  case (Some a)
  from collectReferences_marks [OF Some, of h comps n s] Some show ?thesis by simp
qed

lemma resolve_name_settles:
  assumes SS: "\<And>n. E ''securitySchemes'' n"
    and st: "settled comps cfg E ty names N cs"
  shows "returns (settled comps cfg E ty names (insert name N)) (resolve_name h comps fuel ty name cs)"
proof (cases "component comps ty name")
  case None
  then show ?thesis by (simp add: resolve_name_def)
next
  case (Some c)
  show ?thesis
  proof (cases "truthy_opt c")
    case False
    from scanned_falsy [OF Some False] st have "settled comps cfg E ty names (insert name N) cs"
      by (simp add: settled_def)
    with Some False show ?thesis by (simp add: resolve_name_def)
  next
    case True
    then obtain v where v: "c = Some v" "truthy v" by (cases c) auto
    define s where "s = snd cs"
    define m where "m = collectReferences h comps fuel v s"
    from st have t: "tracked comps E s" and sd: "seeded cfg s"
      and n: "\<forall>m \<in> N. scanned comps s ty m" and fl: "fst cs \<or> usedComponents s ty = names"
      by (simp_all add: settled_def s_def)
    have a1: "after True True (tracked comps E) m" unfolding m_def using SS t by (rule collectReferences_tracked)
    have a2: "after True True (seeded cfg) m" unfolding m_def using sd by (rule seeded_kept)
    have a3: "after True True (\<lambda>s'. set (seenObjects s) \<subseteq> set (seenObjects s') \<and>
                       (\<exists>ys. usedComponents s' ty = usedComponents s ty @ ys)) m"
      unfolding m_def by (rule grown_kept)
    have a4: "after True True (\<lambda>s'. \<forall>a. address v = Some a \<longrightarrow> a \<in> set (seenObjects s')) m"
      unfolding m_def by (rule body_marked)
    have "returns (settled comps cfg E ty names (insert name N))
        (flagged (fst cs) ty (length (usedComponents s ty)) m)"
    proof (cases m)
      case (Done s')
      with a1 a2 a3 a4 have t': "tracked comps E s'" and sd': "seeded cfg s'"
        and g: "set (seenObjects s) \<subseteq> set (seenObjects s')"
        and ys: "\<exists>ys. usedComponents s' ty = usedComponents s ty @ ys"
        and mk: "\<forall>a. address v = Some a \<longrightarrow> a \<in> set (seenObjects s')" by simp_all
      have sc: "scanned comps s' ty name" by (rule scanned_marked [of comps ty name v]) (use Some v(1) mk in auto)
      have n': "\<forall>m \<in> insert name N. scanned comps s' ty m" using n sc g by (auto intro: scanned_mono)
      have fl': "(fst cs \<or> length (usedComponents s ty) < length (usedComponents s' ty)) \<or>
                 usedComponents s' ty = names"
      proof (cases "fst cs \<or> length (usedComponents s ty) < length (usedComponents s' ty)")
        case False
        with ys fl show ?thesis by auto
      qed simp
      from t' sd' n' fl' Done show ?thesis by (simp add: flagged_def settled_def)
    qed (simp_all add: flagged_def)
    with Some True v show ?thesis by (simp add: resolve_name_def m_def s_def)
  qed
qed

lemma resolve_type_settles:
  assumes SS: "\<And>n. E ''securitySchemes'' n"
    and t: "tracked comps E (snd cs)" and sd: "seeded cfg (snd cs)"
  shows "returns (settled comps cfg E ty (usedComponents (snd cs) ty) (set (usedComponents (snd cs) ty)))
           (resolve_type h comps fuel ty cs)"
proof -
  define names where "names = usedComponents (snd cs) ty"
  have "returns (settled comps cfg E ty names ({} \<union> set names)) (each (resolve_name h comps fuel ty) names cs)"
  proof (rule returns_each_growing [where Q = "settled comps cfg E ty names"])
    fix N name cs' assume "settled comps cfg E ty names N cs'"
    with SS show "returns (settled comps cfg E ty names (insert name N)) (resolve_name h comps fuel ty name cs')"
      by (rule resolve_name_settles)
  next
    show "settled comps cfg E ty names {} cs" using t sd by (simp add: settled_def names_def)
  qed
  then show ?thesis by (simp add: resolve_type_def names_def)
qed

text \<open>
  After the turn of a category other than \<open>securitySchemes\<close>, its names from
  \<open>alwaysIncludeComponents\<close> have their bodies scanned.
\<close>

lemma resolve_type_takes:
  assumes ty: "ty \<in> set COMPONENT_TYPES"
    and t: "tracked comps (forced cfg T) (snd cs)" and sd: "seeded cfg (snd cs)"
  shows "returns (\<lambda>cs'. tracked comps (forced cfg (insert ty T)) (snd cs') \<and> seeded cfg (snd cs'))
           (resolve_type h comps fuel ty cs)"
proof (rule returns_mono [OF resolve_type_settles [where E = "forced cfg T", OF _ t sd]])
  show "forced cfg T ''securitySchemes'' n" for n by (simp add: forced_def)
next
  fix cs' :: "bool \<times> state"
  assume st: "settled comps cfg (forced cfg T) ty (usedComponents (snd cs) ty) (set (usedComponents (snd cs) ty)) cs'"
  then have t': "tracked comps (forced cfg T) (snd cs')" and sd': "seeded cfg (snd cs')"
    and sc: "\<forall>m \<in> set (usedComponents (snd cs) ty). scanned comps (snd cs') ty m"
    by (simp_all add: settled_def)
  have "tracked comps (forced cfg (insert ty T)) (snd cs')"
  proof (rule tracked_weaken [OF t'])
    fix t m assume f: "forced cfg T t m"
    show "forced cfg (insert ty T) t m \<or> scanned comps (snd cs') t m"
    proof (cases "t = ty \<and> t \<noteq> ''securitySchemes''")
      case False
      with f show ?thesis by (auto simp: forced_def)
    next
      case True
      with f obtain n where "n \<in> set (alwaysIncludeComponents cfg)" "m = Some (JStr n)"
        by (auto simp: forced_def)
      with sd ty have "m \<in> set (usedComponents (snd cs) ty)" by (simp add: seeded_def)
      with sc True show ?thesis by simp
    qed
  qed
  with sd' show "tracked comps (forced cfg (insert ty T)) (snd cs') \<and> seeded cfg (snd cs')" by simp
qed

lemma resolve_types_take:
  assumes tys: "set tys \<subseteq> set COMPONENT_TYPES"
    and t: "tracked comps (forced cfg {}) (snd cs)" and sd: "seeded cfg (snd cs)"
  shows "returns (\<lambda>cs'. tracked comps (forced cfg (set tys)) (snd cs') \<and> seeded cfg (snd cs'))
           (each (resolve_type h comps fuel) tys cs)"
proof -
  have "returns (\<lambda>cs'. tracked comps (forced cfg ({} \<union> set tys)) (snd cs') \<and> seeded cfg (snd cs'))
           (each (resolve_type h comps fuel) tys cs)"
  proof (rule returns_each_growing [where Q = "\<lambda>N cs'. tracked comps (forced cfg N) (snd cs') \<and> seeded cfg (snd cs')"])
    fix N ty and cs' :: "bool \<times> state"
    assume "ty \<in> set tys" and a: "tracked comps (forced cfg N) (snd cs') \<and> seeded cfg (snd cs')"
    with tys have ty: "ty \<in> set COMPONENT_TYPES" by auto
    from a have t': "tracked comps (forced cfg N) (snd cs')" and sd': "seeded cfg (snd cs')" by simp_all
    show "returns (\<lambda>cs''. tracked comps (forced cfg (insert ty N)) (snd cs'') \<and> seeded cfg (snd cs''))
           (resolve_type h comps fuel ty cs')"
      by (rule resolve_type_takes [OF ty t' sd'])
  qed (simp add: t sd)
  then show ?thesis by simp
qed

text \<open>
  The turn of \<open>securitySchemes\<close>, the last: unless \<open>hasChanges\<close> is set, the category
  holds the names it held when the turn came, and their bodies are scanned.
\<close>

lemma resolve_schemes_settles:
  assumes t: "tracked comps (forced cfg (set (butlast COMPONENT_TYPES))) (snd cs)" and sd: "seeded cfg (snd cs)"
  shows "returns (\<lambda>cs'. tracked comps (forced cfg {}) (snd cs') \<and> seeded cfg (snd cs') \<and>
                        (fst cs' \<or> tracked comps (\<lambda>t m. False) (snd cs')))
           (resolve_type h comps fuel ''securitySchemes'' cs)"
proof (rule returns_mono [OF resolve_type_settles [where E = "forced cfg (set (butlast COMPONENT_TYPES))", OF _ t sd]])
  show "forced cfg (set (butlast COMPONENT_TYPES)) ''securitySchemes'' n" for n by (simp add: forced_def)
next
  fix cs' :: "bool \<times> state"
  define names where "names = usedComponents (snd cs) ''securitySchemes''"
  assume "settled comps cfg (forced cfg (set (butlast COMPONENT_TYPES))) ''securitySchemes''
      (usedComponents (snd cs) ''securitySchemes'') (set (usedComponents (snd cs) ''securitySchemes'')) cs'"
  then have t': "tracked comps (forced cfg (set (butlast COMPONENT_TYPES))) (snd cs')" and sd': "seeded cfg (snd cs')"
    and sc: "\<forall>m \<in> set names. scanned comps (snd cs') ''securitySchemes'' m"
    and fl: "fst cs' \<or> usedComponents (snd cs') ''securitySchemes'' = names"
    by (simp_all add: settled_def names_def)
  have only: "t = ''securitySchemes''" if "forced cfg (set (butlast COMPONENT_TYPES)) t m" for t m
    using that by (auto simp: forced_def COMPONENT_TYPES_def)
  have 1: "tracked comps (forced cfg {}) (snd cs')"
    by (rule tracked_weaken [OF t']) (auto simp: forced_def)
  have 2: "tracked comps (\<lambda>t m. False) (snd cs')" if "\<not> fst cs'"
    unfolding tracked_def
  proof (intro allI ballI)
    fix t m assume m: "m \<in> set (usedComponents (snd cs') t)"
    with t' have "forced cfg (set (butlast COMPONENT_TYPES)) t m \<or> scanned comps (snd cs') t m"
      by (simp add: tracked_def)
    then show "False \<or> scanned comps (snd cs') t m"
    proof
      assume "forced cfg (set (butlast COMPONENT_TYPES)) t m"
      from only [OF this] m fl that sc show ?thesis by simp
    qed simp
  qed
  from 1 2 sd' show "tracked comps (forced cfg {}) (snd cs') \<and> seeded cfg (snd cs') \<and>
                        (fst cs' \<or> tracked comps (\<lambda>t m. False) (snd cs'))" by blast
qed

lemma resolve_round_settles:
  assumes t: "tracked comps (forced cfg {}) s" and sd: "seeded cfg s"
  shows "returns (\<lambda>cs'. tracked comps (forced cfg {}) (snd cs') \<and> seeded cfg (snd cs') \<and>
                        (fst cs' \<or> tracked comps (\<lambda>t m. False) (snd cs')))
           (resolve_round h comps fuel s)"
proof -
  have split: "COMPONENT_TYPES = butlast COMPONENT_TYPES @ [''securitySchemes'']"
    by (simp add: COMPONENT_TYPES_def)
  have "returns (\<lambda>cs'. tracked comps (forced cfg {}) (snd cs') \<and> seeded cfg (snd cs') \<and>
                        (fst cs' \<or> tracked comps (\<lambda>t m. False) (snd cs')))
     (andthen (each (resolve_type h comps fuel) (butlast COMPONENT_TYPES) (False, s))
        (each (resolve_type h comps fuel) [''securitySchemes'']))"
  proof (rule returns_andthen)
    show "returns (\<lambda>cs'. tracked comps (forced cfg (set (butlast COMPONENT_TYPES))) (snd cs') \<and> seeded cfg (snd cs'))
        (each (resolve_type h comps fuel) (butlast COMPONENT_TYPES) (False, s))"
      by (rule resolve_types_take) (use t sd in \<open>auto dest: in_set_butlastD\<close>)
  next
    fix cs' :: "bool \<times> state"
    assume "tracked comps (forced cfg (set (butlast COMPONENT_TYPES))) (snd cs') \<and> seeded cfg (snd cs')"
    then have "returns (\<lambda>cs'. tracked comps (forced cfg {}) (snd cs') \<and> seeded cfg (snd cs') \<and>
                        (fst cs' \<or> tracked comps (\<lambda>t m. False) (snd cs')))
           (resolve_type h comps fuel ''securitySchemes'' cs')"
      by (intro resolve_schemes_settles) simp_all
    then show "returns (\<lambda>cs'. tracked comps (forced cfg {}) (snd cs') \<and> seeded cfg (snd cs') \<and>
                        (fst cs' \<or> tracked comps (\<lambda>t m. False) (snd cs')))
           (each (resolve_type h comps fuel) [''securitySchemes''] cs')"
      by (cases "resolve_type h comps fuel ''securitySchemes'' cs'") (simp_all add: andthen_def)
  qed
  then show ?thesis unfolding resolve_round_def by (subst split) (simp only: each_append)
qed

lemma resolve_settles:
  "tracked comps (forced cfg {}) s \<Longrightarrow> seeded cfg s \<Longrightarrow>
   returns (tracked comps (\<lambda>t m. False)) (resolve h comps fuel rounds s)"
proof (induction rounds arbitrary: s)
  case 0
  show ?case by simp
next
  case (Suc rounds)
  from resolve_round_settles [OF Suc.prems, of h fuel] show ?case
  proof (cases "resolve_round h comps fuel s")
    case (Done cs)
    assume "returns (\<lambda>cs'. tracked comps (forced cfg {}) (snd cs') \<and> seeded cfg (snd cs') \<and>
                        (fst cs' \<or> tracked comps (\<lambda>t m. False) (snd cs'))) (resolve_round h comps fuel s)"
    with Done have a: "tracked comps (forced cfg {}) (snd cs)" "seeded cfg (snd cs)"
      "fst cs \<or> tracked comps (\<lambda>t m. False) (snd cs)" by simp_all
    show ?thesis
    proof (cases "fst cs")
      case True
      with Suc.IH [OF a(1,2)] Done show ?thesis by simp
    next
      case False
      with a(3) Done show ?thesis by simp
    qed
  qed simp_all
qed

subsection \<open>The whole pass\<close>

lemma steps_snoc: "steps [f, g, k, l] s = andthen (steps [f, g, k] s) l"
proof -
  have "steps [l] = l" by (rule ext) (simp add: andthen_def split: outcome.splits)
  then have 1: "steps [k, l] = (\<lambda>s. andthen (k s) l)" by (intro ext) simp
  have 0: "steps [k] = k" by (rule ext) (simp add: andthen_def split: outcome.splits)
  have 2: "steps [g, k, l] = (\<lambda>s. andthen (g s) (\<lambda>s. andthen (k s) l))" by (intro ext) (simp add: 1)
  have 3: "steps [g, k] = (\<lambda>s. andthen (g s) k)" by (intro ext) (simp add: 0)
  show ?thesis by (simp add: 2 3 andthen_assoc)
qed

lemma seeding_keeps:
  fixes w :: walk
  assumes CR: "\<And>v s. I s \<Longrightarrow> after True True I (collectReferences h comps fuel v s)"
    and AL: "\<And>s. I s \<Longrightarrow> I (alloc s)"
    and UT: "\<And>s ts. I s \<Longrightarrow> I (s\<lparr>usedTags := ts\<rparr>)"
    and FE: "\<And>name s. I s \<Longrightarrow> after True True I (force_error h comps fuel name s)"
    and "I (pass w)"
  shows "after True True (\<lambda>w'. I (pass w'))
     (steps [each (process_path h comps cfg rx fuel) (path_entries spec),
             in_pass (root_security h comps fuel (map_of (deep_copy spec) ''security'')),
             in_pass (each (force_error h comps fuel) ERROR_NAMES)] w)"
proof (rule after_steps [where Q = "\<lambda>w'. I (pass w')"])
  fix f and w' :: walk
  assume f: "f \<in> set [each (process_path h comps cfg rx fuel) (path_entries spec),
            in_pass (root_security h comps fuel (map_of (deep_copy spec) ''security'')),
            in_pass (each (force_error h comps fuel) ERROR_NAMES)]" and i: "I (pass w')"
  have 1: "after True True (\<lambda>w'. I (pass w')) (each (process_path h comps cfg rx fuel) (path_entries spec) w')"
  proof (rule after_each [where Q = "\<lambda>w'. I (pass w')"])
    fix e and w'' :: walk assume i': "I (pass w'')"
    show "after True True (\<lambda>w'. I (pass w')) (process_path h comps cfg rx fuel e w'')"
      by (rule process_path_keeps [where I = I, OF CR AL UT i'])
  qed (rule i)
  have 2: "after True True (\<lambda>w'. I (pass w'))
      (in_pass (root_security h comps fuel (map_of (deep_copy spec) ''security'')) w')"
    by (rule in_pass_after) (rule root_security_keeps [where I = I, OF CR AL i])
  have 3: "after True True (\<lambda>w'. I (pass w')) (in_pass (each (force_error h comps fuel) ERROR_NAMES) w')"
  proof (rule in_pass_after, rule after_each [where Q = I])
    fix name s assume "I s"
    then show "after True True I (force_error h comps fuel name s)" by (rule FE)
  qed (rule i)
  from f 1 2 3 show "after True True (\<lambda>w'. I (pass w')) (f w')" by auto
qed (rule \<open>I (pass w)\<close>)

lemma force_error_tracked:
  assumes "tracked comps (forced cfg {}) s \<and> seeded cfg s"
  shows "after True True (\<lambda>s'. tracked comps (forced cfg {}) s' \<and> seeded cfg s') (force_error h comps fuel name s)"
proof (cases "component comps ''schemas'' (Some (JStr name))")
  case None
  with assms show ?thesis by (simp add: force_error_def)
next
  case (Some c)
  show ?thesis
  proof (cases "truthy_opt c")
    case False
    with Some assms show ?thesis by (cases c) (simp_all add: force_error_def)
  next
    case True
    then obtain v where v: "c = Some v" "truthy v" by (cases c) auto
    from assms have t: "tracked comps (forced cfg {}) s" and sd: "seeded cfg s" by simp_all
    have SS: "forced cfg {} ''securitySchemes'' n" for n by (simp add: forced_def)
    have "after True True (tracked comps (forced cfg {}))
        (visit (collectReferences h comps fuel) c (use ''schemas'' (Some (JStr name)) s))"
      by (rule scan_named [of comps h fuel "forced cfg {}", OF collectReferences_tracked SS Some t])
    moreover have "seeded cfg (use ''schemas'' (Some (JStr name)) s)"
      using sd by (auto simp: seeded_def usedComponents_use intro: set_add_keeps)
    then have "after True True (seeded cfg)
        (collectReferences h comps fuel v (use ''schemas'' (Some (JStr name)) s))"
      by (rule seeded_kept)
    ultimately have "after True True (\<lambda>s'. tracked comps (forced cfg {}) s' \<and> seeded cfg s')
        (collectReferences h comps fuel v (use ''schemas'' (Some (JStr name)) s))"
      using v by (intro after_conj) simp_all
    with Some v show ?thesis by (simp add: force_error_def)
  qed
qed

lemma set_foldl_add: "set (foldl (\<lambda>s n. add (f n) s) acc ns) \<subseteq> set acc \<union> f ` set ns"
proof (induction ns arbitrary: acc)
  case Nil
  show ?case by simp
next
  case (Cons n ns)
  from Cons.IH [of "add (f n) acc"] set_add [of "f n" acc] show ?case by auto
qed

lemma has_string: "has s (Some (JStr n)) \<Longrightarrow> Some (JStr n) \<in> set s"
proof -
  assume "has s (Some (JStr n))"
  then obtain x where x: "x \<in> set s" "ident_opt x = Prim (JStr n)" by (auto simp: has_def)
  from x(2) have "x = Some (JStr n)"
  proof (cases x)
    case (Some v)
    with x(2) show ?thesis by (cases v) simp_all
  qed simp
  with x(1) show ?thesis by simp
qed

lemma initial_tracked: "tracked comps (forced cfg {}) (initial cfg a)"
  unfolding tracked_def
proof (intro allI ballI)
  fix ty name assume "name \<in> set (usedComponents (initial cfg a) ty)"
  then have "ty \<in> set COMPONENT_TYPES \<and> name \<in> (\<lambda>n. Some (JStr n)) ` set (alwaysIncludeComponents cfg)"
    using set_foldl_add [of "\<lambda>n. Some (JStr n)" "[]" "alwaysIncludeComponents cfg"]
    by (auto simp: initial_def split: if_splits)
  then show "forced cfg {} ty name \<or> scanned comps (initial cfg a) ty name" by (simp add: forced_def)
qed

lemma initial_seeded: "seeded cfg (initial cfg a)"
  unfolding seeded_def by (intro ballI has_string has_initial)

lemma resolve_all_settles:
  "returns (\<lambda>w. tracked comps (\<lambda>t m. False) (pass w)) (resolve_all h comps cfg rx fuel spec (start cfg spec))"
proof -
  define G where "G = (\<lambda>s. tracked comps (forced cfg {}) s \<and> seeded cfg s)"
  have SS: "forced cfg {} ''securitySchemes'' n" for n by (simp add: forced_def)
  have "after True True (\<lambda>w'. G (pass w'))
     (steps [each (process_path h comps cfg rx fuel) (path_entries spec),
             in_pass (root_security h comps fuel (map_of (deep_copy spec) ''security'')),
             in_pass (each (force_error h comps fuel) ERROR_NAMES)] (start cfg spec))"
  proof (rule seeding_keeps [where I = G])
    fix v and s :: state assume "G s"
    then have "tracked comps (forced cfg {}) s" "seeded cfg s" by (simp_all add: G_def)
    from collectReferences_tracked [of "forced cfg {}", OF SS this(1)] seeded_kept [OF this(2)]
    show "after True True G (collectReferences h comps fuel v s)"
      unfolding G_def by (rule after_conj)
  next
    fix s :: state assume "G s"
    then have "tracked comps (forced cfg {}) s" "seeded cfg s" by (simp_all add: G_def)
    from tracked_alloc [OF this(1)] this(2)
    show "G (alloc s)" by (simp add: G_def seeded_def)
  next
    fix s :: state and ts assume "G s"
    then have "tracked comps (forced cfg {}) s" "seeded cfg s" by (simp_all add: G_def)
    from tracked_seen [OF this(1), of "s\<lparr>usedTags := ts\<rparr>"] this(2)
    show "G (s\<lparr>usedTags := ts\<rparr>)" by (simp add: G_def seeded_def)
  next
    fix name and s :: state assume "G s"
    then show "after True True G (force_error h comps fuel name s)"
      unfolding G_def by (rule force_error_tracked)
  next
    show "G (pass (start cfg spec))" by (simp add: G_def start_def initial_tracked initial_seeded)
  qed
  then have "returns (\<lambda>w'. G (pass w'))
     (steps [each (process_path h comps cfg rx fuel) (path_entries spec),
             in_pass (root_security h comps fuel (map_of (deep_copy spec) ''security'')),
             in_pass (each (force_error h comps fuel) ERROR_NAMES)] (start cfg spec))"
    by (rule after_returns)
  then have "returns (\<lambda>w. tracked comps (\<lambda>t m. False) (pass w))
     (andthen (steps [each (process_path h comps cfg rx fuel) (path_entries spec),
             in_pass (root_security h comps fuel (map_of (deep_copy spec) ''security'')),
             in_pass (each (force_error h comps fuel) ERROR_NAMES)] (start cfg spec))
        (in_pass (resolve h comps fuel fuel)))"
  proof (rule returns_andthen)
    fix w :: walk assume "G (pass w)"
    then have "tracked comps (forced cfg {}) (pass w)" "seeded cfg (pass w)" by (simp_all add: G_def)
    then have "returns (tracked comps (\<lambda>t m. False)) (resolve h comps fuel fuel (pass w))"
      by (rule resolve_settles)
    then show "returns (\<lambda>w. tracked comps (\<lambda>t m. False) (pass w)) (in_pass (resolve h comps fuel fuel) w)"
      by (rule returns_in_pass)
  qed
  then show ?thesis by (simp only: resolve_all_def steps_snoc)
qed

lemma distinct_foldl_add: "distinct (map ident_opt acc) \<Longrightarrow> distinct (map ident_opt (foldl (\<lambda>s n. add (f n) s) acc ns))"
  by (induction ns arbitrary: acc) (simp_all add: distinct_add)

lemma resolve_all_distinct:
  "after True True (\<lambda>w. distinct (seenObjects (pass w)) \<and> distinct (map ident_opt (usedComponents (pass w) ty)))
     (resolve_all h comps cfg rx fuel spec (start cfg spec))"
proof (rule resolve_all_keeps [where I = "\<lambda>s. distinct (seenObjects s) \<and> distinct (map ident_opt (usedComponents s ty))"])
  show CR: "after True True (\<lambda>s. distinct (seenObjects s) \<and> distinct (map ident_opt (usedComponents s ty)))
      (collectReferences h comps fuel v s)"
    if "distinct (seenObjects s) \<and> distinct (map ident_opt (usedComponents s ty))" for v s
    using that by (intro after_conj distinct_seen_kept distinct_used_kept) simp_all
  show "distinct (seenObjects (alloc s)) \<and> distinct (map ident_opt (usedComponents (alloc s) ty))"
    if "distinct (seenObjects s) \<and> distinct (map ident_opt (usedComponents s ty))" for s
    using that by (simp add: alloc_def)
  show "distinct (seenObjects (s\<lparr>usedTags := ts\<rparr>)) \<and> distinct (map ident_opt (usedComponents (s\<lparr>usedTags := ts\<rparr>) ty))"
    if "distinct (seenObjects s) \<and> distinct (map ident_opt (usedComponents s ty))" for s ts
    using that by simp
  show "after True True (\<lambda>s. distinct (seenObjects s) \<and> distinct (map ident_opt (usedComponents s ty)))
      (force_error h comps fuel name s)"
    if "distinct (seenObjects s) \<and> distinct (map ident_opt (usedComponents s ty))" for name s
  proof (rule force_error_keeps [where I = "\<lambda>s. distinct (seenObjects s) \<and> distinct (map ident_opt (usedComponents s ty))"])
    show "after True True (\<lambda>s. distinct (seenObjects s) \<and> distinct (map ident_opt (usedComponents s ty)))
      (collectReferences h comps fuel v s')"
      if "distinct (seenObjects s') \<and> distinct (map ident_opt (usedComponents s' ty))" for v s'
      using that by (rule CR)
    show "distinct (seenObjects (use ''schemas'' (Some (JStr name)) s')) \<and>
          distinct (map ident_opt (usedComponents (use ''schemas'' (Some (JStr name)) s') ty))"
      if "distinct (seenObjects s') \<and> distinct (map ident_opt (usedComponents s' ty))" for s'
      using that by (auto simp: usedComponents_use intro: distinct_add)
  qed (rule that)
  show "distinct (seenObjects (pass (start cfg spec))) \<and>
        distinct (map ident_opt (usedComponents (pass (start cfg spec)) ty))"
    using distinct_foldl_add [of "[]" "\<lambda>n. Some (JStr n)" "alwaysIncludeComponents cfg"]
    by (simp add: start_def initial_def)
qed

lemma final_state:
  assumes "state_of (filterOpenAPI h fuel spec cfg) = Some s"
  shows "\<exists>rx. \<exists>w :: walk. resolve_all h (map_of spec ''components'') cfg rx fuel spec (start cfg spec) = Done w \<and>
           pass w = s"
proof (cases "filterOpenAPI h fuel spec cfg")
  case (Returned r)
  with assms have s: "final r = s" by simp
  from filterOpenAPI_Returned [OF Returned] obtain rx and w :: walk
    where "resolve_all h (map_of spec ''components'') cfg rx fuel spec (start cfg spec) = Done w"
      and "final r = pass w" by blast
  with s have "resolve_all h (map_of spec ''components'') cfg rx fuel spec (start cfg spec) = Done w \<and> pass w = s"
    by simp
  then show ?thesis by blast
qed (use assms in simp_all)

text \<open>
  With fuel enough for the document, the pass does not run out of it: the traversal and
  the closure come to an end, whatever cycles the document holds, by returning or by
  raising. When the pass returns, \<open>seenObjects\<close> holds no cell twice, so that no
  body is scanned twice; no reachable set holds a name twice; and every name that has
  been put into a reachable set has the body of its definition, when that is an
  object, in \<open>seenObjects\<close>. Which names are put into a reachable set is another
  matter.
\<close>

lemma no_cell_scanned_twice:
  assumes "enough spec \<le> fuel"
  shows "filterOpenAPI h fuel spec cfg \<noteq> Exhausted \<and>
         (\<forall>s. state_of (filterOpenAPI h fuel spec cfg) = Some s \<longrightarrow>
            distinct (seenObjects s) \<and>
            (\<forall>ty. distinct (map ident_opt (usedComponents s ty)) \<and>
                  list_all (scanned (map_of spec ''components'') s ty) (usedComponents s ty)))"
proof (intro conjI allI impI)
  show "filterOpenAPI h fuel spec cfg \<noteq> Exhausted" using assms by (rule filterOpenAPI_not_Exhausted)
next
  fix s assume "state_of (filterOpenAPI h fuel spec cfg) = Some s"
  from final_state [OF this] obtain rx and w :: walk
    where w: "resolve_all h (map_of spec ''components'') cfg rx fuel spec (start cfg spec) = Done w"
      and s: "pass w = s" by blast
  have d: "distinct (seenObjects s) \<and> distinct (map ident_opt (usedComponents s ty))" for ty
    using resolve_all_distinct [of ty h "map_of spec ''components''" cfg rx fuel spec] w s by simp
  from resolve_all_settles [of "map_of spec ''components''" h cfg rx fuel spec] w s
  have t: "tracked (map_of spec ''components'') (\<lambda>t m. False) s" by simp
  show "distinct (seenObjects s)" using d by simp
  show "distinct (map ident_opt (usedComponents s ty))" for ty using d by simp
  show "list_all (scanned (map_of spec ''components'') s ty) (usedComponents s ty)" for ty
    using t by (simp add: tracked_def list_all_iff)
qed

section \<open>Filtering what the pass has returned\<close>

subsection \<open>The paths the pass returns are stable\<close>


lemma set_update: "set (AList.update k v al) \<subseteq> insert (k, v) (set al)"
  by (induction al) auto

lemma set_assign: "set (assign k v al) \<subseteq> insert (k, v) (set al)"
  using set_update [of k v al] by (auto simp: assign_def)




lemma get_put: "k' \<noteq> k \<Longrightarrow> get (put k v operation) k' = get operation k'"
  by (cases operation) (simp_all add: get_def map_of_assign)







lemma returns_each:
  "(\<And>e s. e \<in> set es \<Longrightarrow> Q s \<Longrightarrow> returns Q (f e s)) \<Longrightarrow> Q s \<Longrightarrow> returns Q (each f es s)"
proof (induction es arbitrary: s)
  case Nil
  then show ?case by simp
next
  case (Cons e es)
  show ?case unfolding each.simps
  proof (rule returns_andthen)
    show "returns Q (f e s)" using Cons.prems by simp
  next
    fix s' assume q: "Q s'"
    show "returns Q (each f es s')"
    proof (rule Cons.IH)
      fix e' s'' assume "e' \<in> set es" "Q s''"
      then show "returns Q (f e' s'')" using Cons.prems(1) by simp
    qed (rule q)
  qed
qed







subsection \<open>The pass on stable paths\<close>












lemma returned_paths:
  assumes "document_of (filterOpenAPI h fuel spec cfg) = Some d"
  shows "\<exists>rx a. \<exists>w :: walk. pathRegex h cfg = Some rx \<and>
           resolve_all h (map_of spec ''components'') cfg rx fuel spec (start cfg spec) = Done w \<and>
           map_of d ''paths'' = Some (JObj a (paths_out w))"
proof -
  from document_of_Some [OF assms] obtain r where r: "filterOpenAPI h fuel spec cfg = Returned r" "returned r = d"
    by blast
  from filterOpenAPI_Returned [OF r(1)] obtain rx and w :: walk where
    rx: "pathRegex h cfg = Some rx" and
    w: "resolve_all h (map_of spec ''components'') cfg rx fuel spec (start cfg spec) = Done w" and
    a: "assemble cfg (pass w) (source_after spec (paths_src w))
        (assign ''paths'' (JObj (2 * above spec) (paths_out w)) (deep_copy spec)) = Some (returned r)"
    by blast
  have "map_of d ''paths'' = map_of (assign ''paths'' (JObj (2 * above spec) (paths_out w)) (deep_copy spec)) ''paths''"
    unfolding r(2) [symmetric] by (rule assemble_other [OF a]) simp
  then have "map_of d ''paths'' = Some (JObj (2 * above spec) (paths_out w))" by (simp add: map_of_assign_same)
  with rx w show ?thesis by blast
qed

section \<open>The operations of the output come from the source\<close>

lemma uniqueParams_keyed: "uniqueParams seenParams ps = Some u \<Longrightarrow> list_all (\<lambda>p. param_key p \<noteq> None) ps"
proof (induction ps arbitrary: seenParams u)
  case Nil
  then show ?case by simp
next
  case (Cons p ps)
  from Cons.prems obtain k where k: "param_key p = Some k" by (auto split: option.splits)
  show ?case
  proof (cases "k \<in> set seenParams")
    case True
    with Cons.prems k have "uniqueParams seenParams ps = Some u" by simp
    from Cons.IH [OF this] k show ?thesis by simp
  next
    case False
    with Cons.prems k obtain u' where "uniqueParams (seenParams @ [k]) ps = Some u'" by auto
    from Cons.IH [OF this] k show ?thesis by simp
  qed
qed

lemma digit_chars: "list_all (\<lambda>k. char_of (48 + k) \<in> set ''0123456789'') [0..<10]"
  by code_simp

lemma digit_char: "(k::nat) < 10 \<Longrightarrow> char_of (48 + k) \<in> set ''0123456789''"
  using digit_chars unfolding list_all_iff by (auto simp del: upt_Suc)

lemma dec_digits: "set (dec n) \<subseteq> set ''0123456789''"
proof (induction n rule: dec.induct)
  case (1 n)
  show ?case
  proof (cases "n < 10")
    case True
    with digit_char [of n] show ?thesis by (subst dec.simps) simp
  next
    case False
    have "n mod 10 < 10" by simp
    from digit_char [OF this] 1 [OF False] False show ?thesis by (subst dec.simps) simp
  qed
qed

lemma index_key: "k \<in> fst ` set (zip (map dec [0..<n]) xs) \<Longrightarrow> set k \<subseteq> set ''0123456789''"
proof -
  assume "k \<in> fst ` set (zip (map dec [0..<n]) xs)"
  then obtain x where "(k, x) \<in> set (zip (map dec [0..<n]) xs)" by auto
  then have "k \<in> set (map dec [0..<n])" by (rule set_zip_leftD)
  then show ?thesis using dec_digits by auto
qed

lemma get_parameters_object:
  assumes "get v ''parameters'' = Some x"
  shows "\<exists>l kvs. v = JObj l kvs"
proof (cases v)
  case (JArr l xs)
  with assms have "''parameters'' \<in> fst ` set (zip (map dec [0..<length xs]) xs)"
    by (auto simp: get_def dest!: map_of_SomeD intro: rev_image_eqI)
  from index_key [OF this] show ?thesis by simp
next
  case (JStr s)
  with assms have "''parameters'' \<in> fst ` set (zip (map dec [0..<length s]) (map (\<lambda>c. JStr [c]) s))"
    by (auto simp: get_def dest!: map_of_SomeD intro: rev_image_eqI)
  from index_key [OF this] show ?thesis by simp
qed (use assms in \<open>simp_all add: get_def\<close>)

lemma deduplicate_parameters:
  assumes "deduplicate a operation = Some operation'" and "get operation ''parameters'' = Some (JArr l ps)"
  shows "list_all (\<lambda>q. param_key q \<noteq> None) ps \<and>
         get operation' ''parameters'' = Some (JArr a (first_of_each param_key ps))"
proof -
  from assms obtain u where u: "uniqueParams [] ps = Some u"
    and x: "operation' = put ''parameters'' (JArr a u) operation"
    by (auto simp: deduplicate_def)
  from uniqueParams_keyed [OF u] have k: "list_all (\<lambda>q. param_key q \<noteq> None) ps" .
  from uniqueParams_general [OF k, of "[]"] u have "u = first_of_each param_key ps" by simp
  moreover from get_parameters_object [OF assms(2)] obtain l' kvs where "operation = JObj l' kvs" by blast
  with x have "get operation' ''parameters'' = Some (JArr a u)" by (simp add: get_def map_of_assign_same)
  ultimately show ?thesis using k by simp
qed

lemma deduplicate_other:
  assumes "deduplicate a operation = Some operation'"
  shows "k \<noteq> ''parameters'' \<Longrightarrow> get operation' k = get operation k"
    and "(\<forall>l ps. get operation ''parameters'' \<noteq> Some (JArr l ps)) \<Longrightarrow> operation' = operation"
proof -
  from assms have "operation' = operation \<or> (\<exists>v. operation' = put ''parameters'' v operation)"
    by (auto simp: deduplicate_def split: option.splits if_splits json.splits)
  then show "k \<noteq> ''parameters'' \<Longrightarrow> get operation' k = get operation k" by (auto simp: get_put)
  show "(\<forall>l ps. get operation ''parameters'' \<noteq> Some (JArr l ps)) \<Longrightarrow> operation' = operation"
    using assms by (auto simp: deduplicate_def split: option.splits if_splits json.splits)
qed

lemma deduplicated_intro:
  assumes "deduplicate a operation = Some operation'"
  shows "deduplicated operation operation'"
proof (cases "\<exists>l ps. get operation ''parameters'' = Some (JArr l ps)")
  case True
  then obtain l ps where g: "get operation ''parameters'' = Some (JArr l ps)" by blast
  from deduplicate_parameters [OF assms g] assms show ?thesis by (simp add: deduplicated_def)
next
  case False
  with deduplicate_other(2) [OF assms] have same: "operation' = operation" by blast
  from False assms have "deduplicate b operation = Some operation" for b
    unfolding same by (auto simp: deduplicate_def split: option.splits if_splits json.splits)
  then show ?thesis by (simp add: deduplicated_def same)
qed

lemma members_from_assign:
  assumes "members_from cfg pathItem kvs" and "k \<in> set METHODS \<Longrightarrow> kept_from cfg pathItem (k, v)"
  shows "members_from cfg pathItem (assign k v kvs)"
  unfolding members_from_def list_all_iff
proof
  fix m assume "m \<in> set (assign k v kvs)"
  with set_assign [of k v kvs] have "m = (k, v) \<or> m \<in> set kvs" by auto
  then show "fst m \<in> set METHODS \<longrightarrow> kept_from cfg pathItem m"
  proof
    assume "m = (k, v)"
    with assms(2) show ?thesis by simp
  next
    assume "m \<in> set kvs"
    with assms(1) show ?thesis by (simp add: members_from_def list_all_iff)
  qed
qed

lemma process_operation_linked:
  fixes w :: walk
  assumes "linked cfg es pathItem w" and "e \<in> set (entries pathItem)"
  shows "returns (linked cfg es pathItem) (process_operation h comps cfg fuel e w)"
proof (cases "fst e \<in> set METHODS")
  case False
  from assms(1) have "members_from cfg pathItem (assign (fst e) (snd e) (filteredPathItem w))"
    unfolding linked_def using False by (intro members_from_assign) simp_all
  with assms(1) False show ?thesis
    by (simp add: process_operation_def keep_def Let_def linked_def)
next
  case True
  note m = True
  show ?thesis
  proof (cases "snd e = JNull")
    case True
    with m show ?thesis by (simp add: process_operation_def Let_def)
  next
    case False
    note nn = False
    show ?thesis
    proof (cases "operationTags (snd e)")
      case None
      with m nn show ?thesis by (simp add: process_operation_def Let_def)
    next
      case (Some ts)
      show ?thesis
      proof (cases "shouldInclude cfg ts")
        case False
        with m nn Some assms(1) show ?thesis by (simp add: process_operation_def keep_def Let_def linked_def)
      next
        case True
        show ?thesis
        proof (cases "deduplicate (fresh (pass w)) (snd e)")
          case None
          with m nn Some True show ?thesis by (simp add: process_operation_def Let_def)
        next
          case (Some x)
          define w1 where "w1 = keep (fst e) x
                            (w\<lparr>pass := alloc ((pass w)\<lparr>usedTags := foldl (\<lambda>s t. add (Some t) s) (usedTags (pass w)) ts\<rparr>),
                               filteredPathItem := assign (fst e) x (filteredPathItem w),
                               hasOperations := True\<rparr>)"
          have "kept_from cfg pathItem (fst e, x)"
            unfolding kept_from_def list_ex_iff
            using assms(2) nn \<open>operationTags (snd e) = Some ts\<close> True deduplicated_intro [OF Some]
            by (intro bexI [of _ e]) simp_all
          with assms(1) have "members_from cfg pathItem (assign (fst e) x (filteredPathItem w))"
            unfolding linked_def by (intro members_from_assign) simp_all
          with assms(1) have s1: "linked cfg es pathItem (w1\<lparr>pass := s\<rparr>)" for s
            by (simp add: linked_def w1_def keep_def)
          have "returns (linked cfg es pathItem) (in_pass (collectReferences h comps fuel x) w1)"
            by (cases "collectReferences h comps fuel x (pass w1)") (simp_all add: in_pass_def s1)
          with m nn \<open>operationTags (snd e) = Some ts\<close> True Some show ?thesis
            by (simp add: process_operation_def Let_def w1_def)
        qed
      qed
    qed
  qed
qed

lemma in_pass_linked:
  fixes w :: walk
  shows "linked cfg es pathItem w \<Longrightarrow> returns (linked cfg es pathItem) (in_pass f w)"
  by (cases "f (pass w)") (simp_all add: in_pass_def linked_def)

lemma in_pass_from:
  fixes w :: walk
  shows "list_all (item_from cfg es) (paths_out w) \<Longrightarrow>
         returns (\<lambda>w'. list_all (item_from cfg es) (paths_out w')) (in_pass f w)"
  by (cases "f (pass w)") (simp_all add: in_pass_def)

lemma items_from_assign:
  assumes "list_all (item_from cfg es) out" and "item_from cfg es (k, v)"
  shows "list_all (item_from cfg es) (assign k v out)"
  unfolding list_all_iff
proof
  fix e assume "e \<in> set (assign k v out)"
  with set_assign [of k v out] have "e = (k, v) \<or> e \<in> set out" by auto
  with assms show "item_from cfg es e" by (auto simp: list_all_iff)
qed

lemma finish_path_linked:
  fixes w :: walk
  assumes "linked cfg es pathItem w" and "(path, pathItem) \<in> set es"
  shows "returns (\<lambda>w'. list_all (item_from cfg es) (paths_out w')) (finish_path h comps fuel a path pathItem w)"
proof (cases "hasOperations w")
  case False
  with assms show ?thesis by (simp add: finish_path_def Let_def linked_def)
next
  case True
  define w1 where "w1 = w\<lparr>paths_src := paths_src w @ [(path, with_entries pathItem (members w))],
      paths_out := assign path (JObj a (filteredPathItem w)) (paths_out w)\<rparr>"
  from assms have "item_from cfg es (path, JObj a (filteredPathItem w))"
    unfolding item_from_def list_ex_iff by (intro bexI [of _ "(path, pathItem)"]) (simp_all add: linked_def)
  with assms(1) have "list_all (item_from cfg es) (paths_out w1)"
    unfolding w1_def by (simp add: linked_def items_from_assign)
  then have "returns (\<lambda>w'. list_all (item_from cfg es) (paths_out w'))
      (in_pass (collectReferences h comps fuel (with_entries pathItem (members w))) w1)"
    by (rule in_pass_from)
  with True show ?thesis by (simp add: finish_path_def Let_def w1_def)
qed

lemma process_path_linked:
  fixes w :: walk
  assumes "list_all (item_from cfg es) (paths_out w)" and "e \<in> set es"
  shows "returns (\<lambda>w'. list_all (item_from cfg es) (paths_out w')) (process_path h comps cfg rx fuel e w)"
proof (cases "case rx of None \<Rightarrow> False | Some test \<Rightarrow> \<not> test (fst e)")
  case True
  with assms show ?thesis by (simp add: process_path_def Let_def)
next
  case False
  note go = False
  show ?thesis
  proof (cases "snd e = JNull")
    case True
    with go show ?thesis by (simp add: process_path_def Let_def)
  next
    case False
    define w0 where "w0 = w\<lparr>pass := alloc (pass w), filteredPathItem := [], hasOperations := False, members := []\<rparr>"
    have s0: "linked cfg es (snd e) w0" using assms by (simp add: linked_def w0_def members_from_def)
    have "returns (\<lambda>w'. list_all (item_from cfg es) (paths_out w'))
       (andthen (in_pass (path_parameters h comps fuel (snd e)) w0)
          (\<lambda>w1. andthen (each (process_operation h comps cfg fuel) (entries (snd e)) w1)
             (\<lambda>w2. andthen (finish_path h comps fuel (fresh (pass w)) (fst e) (snd e) w2) Done)))"
    proof (rule returns_andthen [where P = "linked cfg es (snd e)"])
      show "returns (linked cfg es (snd e)) (in_pass (path_parameters h comps fuel (snd e)) w0)"
        using s0 by (rule in_pass_linked)
    next
      fix w1 :: walk assume s1: "linked cfg es (snd e) w1"
      show "returns (\<lambda>w'. list_all (item_from cfg es) (paths_out w'))
         (andthen (each (process_operation h comps cfg fuel) (entries (snd e)) w1)
             (\<lambda>w2. andthen (finish_path h comps fuel (fresh (pass w)) (fst e) (snd e) w2) Done))"
      proof (rule returns_andthen [where P = "linked cfg es (snd e)"])
        show "returns (linked cfg es (snd e)) (each (process_operation h comps cfg fuel) (entries (snd e)) w1)"
        proof (rule returns_each [where Q = "linked cfg es (snd e)"])
          fix e' and w' :: walk assume "e' \<in> set (entries (snd e))" "linked cfg es (snd e) w'"
          then show "returns (linked cfg es (snd e)) (process_operation h comps cfg fuel e' w')"
            by (intro process_operation_linked)
        qed (rule s1)
      next
        fix w2 :: walk assume s2: "linked cfg es (snd e) w2"
        have "returns (\<lambda>w'. list_all (item_from cfg es) (paths_out w'))
            (finish_path h comps fuel (fresh (pass w)) (fst e) (snd e) w2)"
          using s2 assms(2) by (intro finish_path_linked) simp_all
        then show "returns (\<lambda>w'. list_all (item_from cfg es) (paths_out w'))
            (andthen (finish_path h comps fuel (fresh (pass w)) (fst e) (snd e) w2) Done)"
          by (cases "finish_path h comps fuel (fresh (pass w)) (fst e) (snd e) w2") (simp_all add: andthen_def)
      qed
    qed
    with go False show ?thesis
      by (simp only: process_path_def Let_def steps_three w0_def if_False)
  qed
qed

lemma resolve_all_linked:
  "returns (\<lambda>w. list_all (item_from cfg (path_entries spec)) (paths_out w))
     (resolve_all h comps cfg rx fuel spec (start cfg spec))"
proof -
  define Q where "Q = (\<lambda>w :: walk. list_all (item_from cfg (path_entries spec)) (paths_out w))"
  have ip: "returns Q (andthen (in_pass f w) g)" if "Q w" "\<And>w'. Q w' \<Longrightarrow> returns Q (g w')"
    for f g and w :: walk
  proof (rule returns_andthen [where P = Q])
    show "returns Q (in_pass f w)" using that(1) unfolding Q_def by (rule in_pass_from)
  qed (rule that(2))
  have "returns Q
     (andthen (each (process_path h comps cfg rx fuel) (path_entries spec) (start cfg spec))
        (\<lambda>w1. andthen (in_pass (root_security h comps fuel (map_of (deep_copy spec) ''security'')) w1)
           (\<lambda>w2. andthen (in_pass (each (force_error h comps fuel) ERROR_NAMES) w2)
              (\<lambda>w3. andthen (in_pass (resolve h comps fuel fuel) w3) Done))))"
  proof (rule returns_andthen [where P = Q])
    show "returns Q (each (process_path h comps cfg rx fuel) (path_entries spec) (start cfg spec))"
    proof (rule returns_each [where Q = Q])
      fix e and w :: walk assume "e \<in> set (path_entries spec)" "Q w"
      then show "returns Q (process_path h comps cfg rx fuel e w)"
        unfolding Q_def by (intro process_path_linked)
    qed (simp add: start_def Q_def)
  next
    fix w1 :: walk assume "Q w1"
    then show "returns Q
        (andthen (in_pass (root_security h comps fuel (map_of (deep_copy spec) ''security'')) w1)
           (\<lambda>w2. andthen (in_pass (each (force_error h comps fuel) ERROR_NAMES) w2)
              (\<lambda>w3. andthen (in_pass (resolve h comps fuel fuel) w3) Done)))"
    proof (rule ip)
      fix w2 :: walk assume "Q w2"
      then show "returns Q (andthen (in_pass (each (force_error h comps fuel) ERROR_NAMES) w2)
              (\<lambda>w3. andthen (in_pass (resolve h comps fuel fuel) w3) Done))"
      proof (rule ip)
        fix w3 :: walk assume "Q w3"
        then show "returns Q (andthen (in_pass (resolve h comps fuel fuel) w3) Done)"
          by (rule ip) simp
      qed
    qed
  qed
  moreover have "steps [f, g, k, l] s =
      andthen (f s) (\<lambda>s1. andthen (g s1) (\<lambda>s2. andthen (k s2) (\<lambda>s3. andthen (l s3) Done)))"
    for f g k l :: "walk \<Rightarrow> walk outcome" and s
  proof -
    have "steps [g, k, l] = (\<lambda>s1. andthen (g s1) (\<lambda>s2. andthen (k s2) (\<lambda>s3. andthen (l s3) Done)))"
      by (rule ext) (simp only: steps_three)
    then show ?thesis by simp
  qed
  ultimately show ?thesis by (simp only: resolve_all_def Q_def)
qed

lemma operation_at_member:
  assumes "operation_at d p m = Some operation'"
  shows "\<exists>paths item'. map_of d ''paths'' = Some paths \<and> (p, item') \<in> set (entries paths) \<and>
           (m, operation') \<in> set (entries item')"
proof -
  from assms obtain paths item' where "map_of d ''paths'' = Some paths" "get paths p = Some item'"
    "get item' m = Some operation'"
    by (auto simp: operation_at_def split: option.splits)
  then show ?thesis by (auto simp: get_def dest!: map_of_SomeD)
qed

text \<open>
  Claim C5, as the code has it. Every operation the document returned has under a
  method is an operation the source has under that path and method, with its
  \<open>parameters\<close> made over and nothing else: when the source's \<open>parameters\<close> is an array,
  every parameter in it has a key \<open>`${param.in}.${param.name}`\<close> that can be printed, and
  the array in the output holds the first parameter of each key, in the order of the
  source; an operation without such an array is as it was. When every parameter has a
  string location without a dot and a string name, two keys are equal exactly when
  location and name both are, and the output holds the first parameter of each
  (location, name) pair.
\<close>

theorem deduplicated_in_output:
  assumes "document_of (filterOpenAPI h fuel spec cfg) = Some d"
    and "operation_at d p m = Some operation'" and "m \<in> set METHODS"
  shows "\<exists>item operation. (p, item) \<in> set (path_entries spec) \<and> (m, operation) \<in> set (entries item) \<and>
           (\<forall>k. k \<noteq> ''parameters'' \<longrightarrow> get operation' k = get operation k) \<and>
           ((\<forall>l ps. get operation ''parameters'' \<noteq> Some (JArr l ps)) \<longrightarrow> operation' = operation) \<and>
           (\<forall>l ps. get operation ''parameters'' = Some (JArr l ps) \<longrightarrow>
               list_all (\<lambda>q. param_key q \<noteq> None) ps \<and>
               parameters_at d p m = Some (first_of_each param_key ps) \<and>
               (list_all standard_param ps \<longrightarrow> parameters_at d p m = Some (first_of_each location_name ps)))"
proof -
  from returned_paths [OF assms(1)] obtain rx a and w :: walk where
    w: "resolve_all h (map_of spec ''components'') cfg rx fuel spec (start cfg spec) = Done w" and
    ps: "map_of d ''paths'' = Some (JObj a (paths_out w))" by blast
  from resolve_all_linked [of cfg spec h "map_of spec ''components''" rx fuel] w
  have out: "list_all (item_from cfg (path_entries spec)) (paths_out w)" by simp
  from operation_at_member [OF assms(2)] ps obtain item' where
    i: "(p, item') \<in> set (paths_out w)" and o: "(m, operation') \<in> set (entries item')" by auto
  from out i have "item_from cfg (path_entries spec) (p, item')" by (simp add: list_all_iff)
  then obtain e where e: "e \<in> set (path_entries spec)" "fst e = p"
      and c: "case item' of JObj a kvs \<Rightarrow> members_from cfg (snd e) kvs | other \<Rightarrow> False"
    by (auto simp: item_from_def list_ex_iff)
  from c obtain a' kvs where it: "item' = JObj a' kvs" and mf: "members_from cfg (snd e) kvs"
    by (cases item') simp_all
  from o it mf assms(3) have "kept_from cfg (snd e) (m, operation')"
    by (auto simp: members_from_def list_all_iff)
  then obtain e2 where e2: "e2 \<in> set (entries (snd e))" "fst e2 = m" and dd: "deduplicated (snd e2) operation'"
    by (auto simp: kept_from_def list_ex_iff)
  define b where "b = (case get operation' ''parameters'' of Some (JArr a u) \<Rightarrow> a | other \<Rightarrow> 0)"
  from dd have dq: "deduplicate b (snd e2) = Some operation'" by (simp add: deduplicated_def b_def)
  have 1: "(p, snd e) \<in> set (path_entries spec)" using e by (cases e) auto
  have 2: "(m, snd e2) \<in> set (entries (snd e))" using e2 by (cases e2) auto
  have 3: "\<forall>k. k \<noteq> ''parameters'' \<longrightarrow> get operation' k = get (snd e2) k"
    using deduplicate_other(1) [OF dq] by blast
  have 4: "(\<forall>l ps. get (snd e2) ''parameters'' \<noteq> Some (JArr l ps)) \<longrightarrow> operation' = snd e2"
    using deduplicate_other(2) [OF dq] by blast
  have 5: "list_all (\<lambda>q. param_key q \<noteq> None) ps \<and>
           parameters_at d p m = Some (first_of_each param_key ps) \<and>
           (list_all standard_param ps \<longrightarrow> parameters_at d p m = Some (first_of_each location_name ps))"
    if g: "get (snd e2) ''parameters'' = Some (JArr l ps)" for l ps
  proof -
    from deduplicate_parameters [OF dq g] have k: "list_all (\<lambda>q. param_key q \<noteq> None) ps"
      and g': "get operation' ''parameters'' = Some (JArr b (first_of_each param_key ps))" by simp_all
    from g' assms(2) have pa: "parameters_at d p m = Some (first_of_each param_key ps)"
      by (simp add: parameters_at_def)
    have "first_of_each param_key ps = first_of_each location_name ps" if "list_all standard_param ps"
      using that by (intro first_of_each_cong standard_same) (auto simp: list_all_iff)
    with k pa show ?thesis by simp
  qed
  from 1 2 3 4 5 show ?thesis by blast
qed

text \<open>The example of the specification: query a, header a, query a.\<close>

theorem deduplicated_in_output_witness:
  "document_of (filterOpenAPI offline 20 doc_params by_user) = Some out_params \<and>
   operation_at out_params ''/users'' ''get'' =
     Some (JObj 3 [(''tags'', JArr 4 [JStr ''User'']), (''parameters'', JArr 68 [param_qa, param_ha])]) \<and>
   ''get'' \<in> set METHODS \<and>
   path_entries doc_params = [(''/users'', JObj 2 [(''get'', JObj 3
          [(''tags'', JArr 4 [JStr ''User'']),
           (''parameters'', JArr 5 [param_qa, param_ha, param_qa'])])])] \<and>
   list_all standard_param [param_qa, param_ha, param_qa'] \<and>
   first_of_each location_name [param_qa, param_ha, param_qa'] = [param_qa, param_ha] \<and>
   parameters_at out_params ''/users'' ''get'' = Some [param_qa, param_ha]"
proof -
  define source where "source = JObj 3 [(''tags'', JArr 4 [JStr ''User'']),
           (''parameters'', JArr 5 [param_qa, param_ha, param_qa'])]"
  have 1: "document_of (filterOpenAPI offline 20 doc_params by_user) = Some out_params" by code_simp
  have 2: "operation_at out_params ''/users'' ''get'' =
     Some (JObj 3 [(''tags'', JArr 4 [JStr ''User'']), (''parameters'', JArr 68 [param_qa, param_ha])])"
    by code_simp
  have 3: "''get'' \<in> set METHODS" by code_simp
  have 4: "path_entries doc_params = [(''/users'', JObj 2 [(''get'', source)])]"
    unfolding source_def by code_simp
  have 5: "list_all standard_param [param_qa, param_ha, param_qa']" by code_simp
  have 6: "first_of_each location_name [param_qa, param_ha, param_qa'] = [param_qa, param_ha]" by code_simp
  have 7: "get source ''parameters'' = Some (JArr 5 [param_qa, param_ha, param_qa'])"
    by (simp add: source_def get_def)
  from deduplicated_in_output [OF 1 2 3] obtain item operation where
    i: "(''/users'', item) \<in> set (path_entries doc_params)" and o: "(''get'', operation) \<in> set (entries item)"
    and p: "\<forall>l ps. get operation ''parameters'' = Some (JArr l ps) \<longrightarrow>
               (list_all standard_param ps \<longrightarrow>
                parameters_at out_params ''/users'' ''get'' = Some (first_of_each location_name ps))"
    by blast
  from i 4 have "item = JObj 2 [(''get'', source)]" by simp
  with o have "operation = source" by simp
  with p 7 5 have "parameters_at out_params ''/users'' ''get'' =
      Some (first_of_each location_name [param_qa, param_ha, param_qa'])" by blast
  then have 8: "parameters_at out_params ''/users'' ''get'' = Some [param_qa, param_ha]" by (simp only: 6)
  from 1 2 3 4 5 6 8 show ?thesis unfolding source_def by blast
qed

text \<open>
  As claim C5 states it, a parameter goes exactly when an earlier one has the same
  (location, name) pair. The key is one string, so \<open>in = a.b, name = c\<close> and
  \<open>in = a, name = b.c\<close> collide: the operation of the document returned has lost the
  second though the pairs differ.
\<close>

theorem colliding_keys_counterexample:
  "\<forall>h. map_option (\<lambda>d. parameters_at d ''/users'' ''get'') (document_of (filterOpenAPI h 20 doc_dotted by_user))
     = Some (Some [param_dotted]) \<and>
   first_of_each location_name [param_dotted, param_dotted'] = [param_dotted, param_dotted']"
  by (rule allI) code_simp

section \<open>The tags the pass has used\<close>

lemma usedTags_use [simp]: "usedTags (use ty n s) = usedTags s"
  by (simp add: use_def)

lemma usedTags_warn [simp]: "usedTags (warn r s) = usedTags s"
  by (simp add: warn_def)

lemma usedTags_mark [simp]: "usedTags (mark v s) = usedTags s"
  by (cases "address v") (simp_all add: mark_def)

lemma usedTags_alloc [simp]: "usedTags (alloc s) = usedTags s"
  by (simp add: alloc_def)








lemma paths_tags_append: "paths_tags (xs @ ys) = paths_tags xs @ paths_tags ys"
  by (simp add: paths_tags_def)




subsection \<open>On stable paths\<close>










subsection \<open>On any paths whose objects have each key once\<close>








section \<open>The pass on a document it has returned\<close>

subsection \<open>The copy of a copy\<close>





lemma falsy_reparsed: "\<not> truthy v \<Longrightarrow> \<not> truthy (reparsed v)"
  by (cases v) (auto split: if_splits)


subsection \<open>What the assembler leaves under each field\<close>






subsection \<open>The tags kept\<close>





subsection \<open>Field by field\<close>









section \<open>The pass on particular documents\<close>

text \<open>
  Claim C1. The one kept operation refers to \<open>#/components/schemas/Foo\<close>.
  \<open>new URL\<close> resolves the reference to the path \<open>/\<close> with the whole reference in
  the hash, the test \<open>refUrl.pathname === '/components'\<close> fails, and \<open>Foo\<close> is never
  tracked: the reachable set of schemas stays empty and the document returned has no
  \<open>components\<close> at all. This holds on every platform \<open>h\<close>.
\<close>

theorem fragment_reference_not_tracked:
  "map_option (\<lambda>d. map_of d ''components'') (document_of (filterOpenAPI h 20 doc_ref by_user)) = Some None \<and>
   map_option (\<lambda>s. usedComponents s ''schemas'') (state_of (filterOpenAPI h 20 doc_ref by_user)) = Some []"
  by code_simp

text \<open>
  Claim C2. With the tag filter \<open>User\<close>, \<open>post /a\<close> is dropped and so is every
  operation of \<open>/b\<close>; \<open>Foo\<close> is named only by the dropped \<open>post\<close> and \<open>Bar\<close> only
  by a path-level parameter of \<open>/b\<close>. Both are in the components returned, because the
  whole source path item is scanned once one of its operations is kept, and path-level
  parameters are scanned before any operation is looked at.
\<close>

theorem dropped_operations_keep_components:
  "map_option (\<lambda>d. component_names d ''schemas'') (document_of (filterOpenAPI h 40 doc_dropped by_user))
     = Some [''Foo'', ''Bar''] \<and>
   map_option (\<lambda>d. map_option plain (map_of d ''paths'')) (document_of (filterOpenAPI h 40 doc_dropped by_user))
     = Some (Some (JObj 0 [(''/a'', JObj 0 [(''get'', JObj 0 [(''tags'', JArr 0 [JStr ''User''])])])]))"
  by code_simp

text \<open>
  Claim C8. The one operation is kept; its request body has a schema with a property
  named \<open>parameters\<close>. The scan reaches the object under \<open>properties\<close> as it reaches
  every nested object, reads its \<open>parameters\<close> (the schema of that property, an object)
  and calls \<open>forEach\<close> on it: a TypeError, outside every \<open>try\<close>. The pass raises and
  returns no document, on every platform \<open>h\<close>.
\<close>

theorem property_named_parameters_raises:
  "raised (filterOpenAPI h 20 doc_property by_user) \<and>
   document_of (filterOpenAPI h 20 doc_property by_user) = None"
  by code_simp

text \<open>
  Claim C4. The schemas \<open>A\<close> and \<open>B\<close> refer to each other and the one kept
  operation refers to \<open>A\<close>, all by \<open>#/components/schemas/...\<close>. The pass ends, but
  it neither scans the body of \<open>A\<close> or of \<open>B\<close> (the cells 9 and 12) nor puts their
  names into the reachable set, not once: the test on the pathname of the reference
  fails as it does for claim C1, and the document returned has no components. This
  holds on every platform \<open>h\<close>.
\<close>

theorem reference_cycle_not_tracked:
  "map_option (\<lambda>s. usedComponents s ''schemas'') (state_of (filterOpenAPI h 40 doc_ref_cycle by_user)) = Some [] \<and>
   map_option (\<lambda>s. filter (\<lambda>a. a \<in> set [9, 12]) (seenObjects s))
     (state_of (filterOpenAPI h 40 doc_ref_cycle by_user)) = Some [] \<and>
   map_option (\<lambda>d. map_of d ''components'') (document_of (filterOpenAPI h 40 doc_ref_cycle by_user)) = Some None"
  by code_simp

end
